theory Spec2Isabelle
  imports Main "HOL-Library.AList" "HOL-Library.Sublist" "HOL-Library.Multiset"
    "HOL-Library.Char_ord" "HOL-Library.List_Lexorder"
begin

section \<open>Order records\<close>

text \<open>
  The order records of \<^verbatim>\<open>mockData.js\<close>: an order has a numeric
  \<^verbatim>\<open>id\<close>, a \<^verbatim>\<open>name\<close>, a
  \<^verbatim>\<open>phone\<close>, a list \<^verbatim>\<open>orders\<close> of line items
  \<^verbatim>\<open>{ item, qty }\<close>, a \<^verbatim>\<open>time\<close> and a
  \<^verbatim>\<open>date\<close>. Field names carry a prefix because several object
  shapes of the program share them. Quantities are integers, held by the program as
  JavaScript numbers.
\<close>

record line_item =
  li_item :: string
  li_qty :: int

record order =
  o_id :: nat
  o_name :: string
  o_phone :: string
  o_orders :: "line_item list"
  o_time :: string
  o_date :: string

section \<open>JavaScript primitives used by the program\<close>

subsection \<open>Numbers in template literals\<close>

text \<open>The decimal text of a non-negative integer, as \<^verbatim>\<open>`${order.id}`\<close> renders it.\<close>

definition digit_char :: "nat \<Rightarrow> char" where
  "digit_char d = ''0123456789'' ! d"

fun string_of_nat :: "nat \<Rightarrow> string" where
  "string_of_nat n =
     (if n < 10 then [digit_char n] else string_of_nat (n div 10) @ [digit_char (n mod 10)])"

declare string_of_nat.simps [simp del]

subsection \<open>Addition of numbers\<close>

text \<open>
  A JavaScript number is a double with 53 significant bits. The sum of two integers is
  therefore the integer sum when its magnitude is at most \<open>2^53\<close>, and otherwise the
  nearest integer that has 53 significant bits, the one with an even last bit when two are
  equally near. (Sums beyond the largest double, about \<open>1.8e308\<close>, which the program
  turns into \<^verbatim>\<open>Infinity\<close>, are outside the model.)
  \<^verbatim>\<open>getOrdersSummary\<close> and \<^verbatim>\<open>getTopItems\<close> add quantities
  with \<open>js_add\<close>. The counters of \<^verbatim>\<open>getOrdersOverTime\<close> grow by one
  per element of an array, which has fewer than \<open>2^32\<close> elements, so that their addition
  is exact and written \<open>+\<close>. The difference \<^verbatim>\<open>b - a\<close> in a comparator is
  used for its sign only, which is the sign of the exact difference.
\<close>

fun bit_length :: "nat \<Rightarrow> nat" where
  "bit_length n = (if n = 0 then 0 else bit_length (n div 2) + 1)"

declare bit_length.simps [simp del]

definition round_double :: "int \<Rightarrow> int" where
  "round_double n =
     (if \<bar>n\<bar> \<le> 9007199254740992 then n
      else let q = 2 ^ (bit_length (nat \<bar>n\<bar>) - 53); lo = (n div q) * q
           in if 2 * (n - lo) < q then lo
              else if q < 2 * (n - lo) then lo + q
              else if even (n div q) then lo else lo + q)"

definition js_add :: "int \<Rightarrow> int \<Rightarrow> int" where
  "js_add a b = round_double (a + b)"

subsection \<open>Strings\<close>

text \<open>\<^verbatim>\<open>s.includes(sub)\<close>: \<open>sub\<close> occurs in \<open>s\<close> as a contiguous substring.\<close>

fun includes_str :: "string \<Rightarrow> string \<Rightarrow> bool" where
  "includes_str [] sub = (sub = [])"
| "includes_str (c # cs) sub = (prefix sub (c # cs) \<or> includes_str cs sub)"

text \<open>
  \<^verbatim>\<open>s.toLowerCase()\<close> maps a string by the case tables of Unicode,
  which belong to the engine and not to the program: the functions of the view engine
  below take the built-in as their parameter \<open>toLowerCase\<close>, and what is proved
  about them holds for every such function. On text made of ASCII characters the built-in
  is \<open>ascii_toLowerCase\<close>, which moves the letters A to Z to a to z and leaves every
  other character; the sample rows are ASCII text.
\<close>

definition lower_char :: "char \<Rightarrow> char" where
  "lower_char c =
     (case map_of (zip ''ABCDEFGHIJKLMNOPQRSTUVWXYZ'' ''abcdefghijklmnopqrstuvwxyz'') c of
        Some l \<Rightarrow> l
      | None \<Rightarrow> c)"

definition ascii_toLowerCase :: "string \<Rightarrow> string" where
  "ascii_toLowerCase s = map lower_char s"

subsection \<open>Arrays: slice and sort\<close>

text \<open>
  \<^verbatim>\<open>xs.slice(start, end)\<close>: a negative bound counts from the end of
  the array, both bounds are clamped to the array, and an empty range gives the empty
  array.
\<close>

definition slice_index :: "nat \<Rightarrow> int \<Rightarrow> nat" where
  "slice_index len i = (if i < 0 then nat (max (int len + i) 0) else min (nat i) len)"

definition slice :: "int \<Rightarrow> int \<Rightarrow> 'a list \<Rightarrow> 'a list" where
  "slice start end xs =
     (let k = slice_index (length xs) start; final = slice_index (length xs) end
      in take (final - k) (drop k xs))"

text \<open>
  \<^verbatim>\<open>xs.sort(cmp)\<close>: the comparator returns a number, negative when
  its first argument goes first. The sort is stable. It is modelled as insertion from the
  right: an element is placed in front of the first element that it does not follow. For
  a comparator that is a consistent ordering this is the one stable sorted arrangement.
  For a comparator that is not (one that returns \<^verbatim>\<open>NaN\<close>, read as 0, for
  some pairs only) the arrangement of an engine is implementation-defined and may differ
  from the model's; no property below is about the order in that case.
\<close>

fun insert_by :: "('a \<Rightarrow> 'a \<Rightarrow> int) \<Rightarrow> 'a \<Rightarrow> 'a list \<Rightarrow> 'a list" where
  "insert_by cmp x [] = [x]"
| "insert_by cmp x (y # ys) =
     (if cmp x y \<le> 0 then x # y # ys else y # insert_by cmp x ys)"

definition array_sort :: "('a \<Rightarrow> 'a \<Rightarrow> int) \<Rightarrow> 'a list \<Rightarrow> 'a list" where
  "array_sort cmp xs = foldr (insert_by cmp) xs []"

subsection \<open>Plain objects used as dictionaries\<close>

text \<open>
  An object literal \<^verbatim>\<open>{}\<close> filled by
  \<^verbatim>\<open>obj[key] = value\<close> is the list of its own properties in
  creation order; \<open>AList.update\<close> overwrites a property where it stands and
  appends a new one. \<^verbatim>\<open>Object.entries\<close> and
  \<^verbatim>\<open>Object.values\<close> list the properties whose key is an array index
  (the canonical decimal text of an integer below \<open>2^32 - 1\<close>) first, in
  ascending numeric order, and then the others in creation order.
\<close>

type_synonym 'v js_object = "(string \<times> 'v) list"

definition is_digit :: "char \<Rightarrow> bool" where
  "is_digit c = (c \<in> set ''0123456789'')"

definition digit_value :: "char \<Rightarrow> nat" where
  "digit_value c = of_char c - 48"

definition nat_of_string :: "string \<Rightarrow> nat" where
  "nat_of_string s = foldl (\<lambda>n c. 10 * n + digit_value c) 0 s"

definition is_array_index :: "string \<Rightarrow> bool" where
  "is_array_index s =
     (s \<noteq> [] \<and> list_all is_digit s \<and> (s = ''0'' \<or> hd s \<noteq> CHR ''0'')
      \<and> nat_of_string s < 4294967295)"

definition object_entries :: "'v js_object \<Rightarrow> (string \<times> 'v) list" where
  "object_entries obj =
     sort_key (\<lambda>p. nat_of_string (fst p)) (filter (\<lambda>p. is_array_index (fst p)) obj)
     @ filter (\<lambda>p. \<not> is_array_index (fst p)) obj"

definition object_values :: "'v js_object \<Rightarrow> 'v list" where
  "object_values obj = map snd (object_entries obj)"

text \<open>
  A property read \<^verbatim>\<open>obj[key]\<close> also finds what
  \<^verbatim>\<open>{}\<close> inherits from \<^verbatim>\<open>Object.prototype\<close>:
  under these names it returns a function (or, for \<^verbatim>\<open>__proto__\<close>,
  the prototype object) even when the object has no own property.
\<close>

definition object_prototype_names :: "string list" where
  "object_prototype_names =
     [''constructor'', ''hasOwnProperty'', ''isPrototypeOf'', ''propertyIsEnumerable'',
      ''toLocaleString'', ''toString'', ''valueOf'', ''__proto__'', ''__defineGetter__'',
      ''__defineSetter__'', ''__lookupGetter__'', ''__lookupSetter__'']"

datatype 'v property = Undefined | Own 'v | Inherited

definition get_prop :: "'v js_object \<Rightarrow> string \<Rightarrow> 'v property" where
  "get_prop obj key =
     (case map_of obj key of
        Some v \<Rightarrow> Own v
      | None \<Rightarrow> if key \<in> set object_prototype_names then Inherited else Undefined)"

section \<open>Flattener (OrdersTable)\<close>

text \<open>
  \<^verbatim>\<open>flattenedOrders\<close>: one row per line item of every order, in
  input order; the row id is \<^verbatim>\<open>`${order.id}-${item.item}`\<close>.
\<close>

record row =
  r_id :: string
  r_name :: string
  r_phone :: string
  r_item :: string
  r_quantity :: int
  r_time :: string
  r_date :: string

definition flatten_item :: "order \<Rightarrow> line_item \<Rightarrow> row" where
  "flatten_item order item =
     \<lparr>r_id = string_of_nat (o_id order) @ ''-'' @ li_item item,
      r_name = o_name order, r_phone = o_phone order, r_item = li_item item,
      r_quantity = li_qty item, r_time = o_time order, r_date = o_date order\<rparr>"

definition flattenedOrders :: "order list \<Rightarrow> row list" where
  "flattenedOrders orders = concat (map (\<lambda>order. map (flatten_item order) (o_orders order)) orders)"

definition repeated_item_order :: order where
  "repeated_item_order =
     \<lparr>o_id = 1, o_name = ''Raj Kumar'', o_phone = ''9999999999'',
      o_orders = [\<lparr>li_item = ''Shirt'', li_qty = 10\<rparr>, \<lparr>li_item = ''Shirt'', li_qty = 2\<rparr>],
      o_time = ''10:05 AM'', o_date = ''2024-10-17''\<rparr>"

section \<open>Aggregator (mockData.js)\<close>

subsection \<open>getOrdersSummary\<close>

text \<open>
  \<^verbatim>\<open>getOrdersSummary\<close> keeps one summary object per key
  \<^verbatim>\<open>`${order.name}_${order.phone}`\<close> in the object
  \<^verbatim>\<open>summary\<close>. When \<^verbatim>\<open>summary[key]\<close> is
  falsy it stores a fresh summary under the key. Then, for every line item, it reads
  \<^verbatim>\<open>summary[key].items\<close>: under a key that the object only
  inherits, this is \<^verbatim>\<open>undefined\<close> and
  \<^verbatim>\<open>.find\<close> on it throws a TypeError.
  \<^verbatim>\<open>find\<close> returns the first stored item of the same name, whose
  \<^verbatim>\<open>qty\<close> grows; without one a copy of the line item is pushed.
\<close>

datatype error = TypeError

record customer_summary =
  s_name :: string
  s_phone :: string
  s_items :: "line_item list"
  s_totalQuantity :: int

definition summary_key :: "order \<Rightarrow> string" where
  "summary_key order = o_name order @ ''_'' @ o_phone order"

definition new_summary :: "order \<Rightarrow> customer_summary" where
  "new_summary order =
     \<lparr>s_name = o_name order, s_phone = o_phone order, s_items = [], s_totalQuantity = 0\<rparr>"

fun accumulate_item :: "line_item \<Rightarrow> line_item list \<Rightarrow> line_item list" where
  "accumulate_item item [] = [item]"
| "accumulate_item item (i # items) =
     (if li_item i = li_item item then i\<lparr>li_qty := js_add (li_qty i) (li_qty item)\<rparr> # items
      else i # accumulate_item item items)"

definition ensure_summary :: "customer_summary js_object \<Rightarrow> order \<Rightarrow> customer_summary js_object" where
  "ensure_summary summary order =
     (case get_prop summary (summary_key order) of
        Undefined \<Rightarrow> AList.update (summary_key order) (new_summary order) summary
      | _ \<Rightarrow> summary)"

fun add_items ::
  "customer_summary js_object \<Rightarrow> string \<Rightarrow> line_item list \<Rightarrow> error + customer_summary js_object"
where
  "add_items summary key [] = Inr summary"
| "add_items summary key (item # items) =
     (case get_prop summary key of
        Own s \<Rightarrow>
          add_items
            (AList.update key
               (s\<lparr>s_items := accumulate_item item (s_items s),
                  s_totalQuantity := js_add (s_totalQuantity s) (li_qty item)\<rparr>) summary)
            key items
      | _ \<Rightarrow> Inl TypeError)"

fun summarize ::
  "customer_summary js_object \<Rightarrow> order list \<Rightarrow> error + customer_summary js_object"
where
  "summarize summary [] = Inr summary"
| "summarize summary (order # orders) =
     (case add_items (ensure_summary summary order) (summary_key order) (o_orders order) of
        Inl e \<Rightarrow> Inl e
      | Inr summary' \<Rightarrow> summarize summary' orders)"

definition getOrdersSummary :: "order list \<Rightarrow> error + customer_summary list" where
  "getOrdersSummary orders =
     (case summarize [] orders of
        Inl e \<Rightarrow> Inl e
      | Inr summary \<Rightarrow> Inr (object_values summary))"

text \<open>The three records of the specification's example scenario.\<close>

definition raj_orders :: "order list" where
  "raj_orders =
     [\<lparr>o_id = 1, o_name = ''Raj'', o_phone = ''9999999999'',
       o_orders = [\<lparr>li_item = ''Shirt'', li_qty = 10\<rparr>, \<lparr>li_item = ''Jeans'', li_qty = 5\<rparr>],
       o_time = ''10:05 AM'', o_date = ''2024-10-17''\<rparr>,
      \<lparr>o_id = 2, o_name = ''Raj Kumar'', o_phone = ''9999999999'',
       o_orders = [\<lparr>li_item = ''Shirt'', li_qty = 2\<rparr>],
       o_time = ''10:45 AM'', o_date = ''2024-10-17''\<rparr>,
      \<lparr>o_id = 3, o_name = ''Priya'', o_phone = ''8888888888'',
       o_orders = [\<lparr>li_item = ''Saree'', li_qty = 3\<rparr>],
       o_time = ''02:00 PM'', o_date = ''2024-10-17''\<rparr>]"

text \<open>
  What the records say, independently of the loop: the keys in the order in which they
  are first seen, the records of one key, and the summary that these records add up to.
\<close>

fun first_seen :: "'a list \<Rightarrow> 'a list" where
  "first_seen [] = []"
| "first_seen (x # xs) = x # filter (\<lambda>y. y \<noteq> x) (first_seen xs)"

definition order_quantity :: "order \<Rightarrow> int" where
  "order_quantity order = sum_list (map li_qty (o_orders order))"

definition orders_of_key :: "string \<Rightarrow> order list \<Rightarrow> order list" where
  "orders_of_key key orders = filter (\<lambda>order. summary_key order = key) orders"

definition summary_of_key :: "order list \<Rightarrow> string \<Rightarrow> customer_summary" where
  "summary_of_key orders key =
     \<lparr>s_name = o_name (hd (orders_of_key key orders)),
      s_phone = o_phone (hd (orders_of_key key orders)),
      s_items = foldl (\<lambda>items item. accumulate_item item items) []
                  (concat (map o_orders (orders_of_key key orders))),
      s_totalQuantity = foldl js_add 0
                  (map li_qty (concat (map o_orders (orders_of_key key orders))))\<rparr>"

text \<open>
  A phone written as exactly ten digits: a phone of the record model in its normalised
  form. The program itself never normalises a phone.
\<close>

definition valid_phone :: "string \<Rightarrow> bool" where
  "valid_phone p = (length p = 10 \<and> list_all is_digit p)"

subsection \<open>getTopItems\<close>

text \<open>
  \<^verbatim>\<open>itemCounts[item.item] = (itemCounts[item.item] || 0) + item.qty\<close>,
  then the entries sorted by \<^verbatim>\<open>b - a\<close> on the counts, cut by
  \<^verbatim>\<open>slice(0, limit)\<close>; a call without a limit uses 10. The counts
  are numbers as long as no item is named like a member of
  \<^verbatim>\<open>Object.prototype\<close>; \<open>count_of\<close> reads such a name
  as having no count, and the properties below exclude these names.
\<close>

record item_count =
  ic_item :: string
  ic_count :: int

definition count_of :: "int js_object \<Rightarrow> string \<Rightarrow> int" where
  "count_of obj key = (case get_prop obj key of Own c \<Rightarrow> c | _ \<Rightarrow> 0)"

definition count_item :: "int js_object \<Rightarrow> line_item \<Rightarrow> int js_object" where
  "count_item itemCounts item =
     AList.update (li_item item) (js_add (count_of itemCounts (li_item item)) (li_qty item))
       itemCounts"

definition item_counts :: "order list \<Rightarrow> int js_object" where
  "item_counts orders =
     foldl (\<lambda>itemCounts order. foldl count_item itemCounts (o_orders order)) [] orders"

definition getTopItems :: "order list \<Rightarrow> int option \<Rightarrow> item_count list" where
  "getTopItems orders limit =
     map (\<lambda>(item, count). \<lparr>ic_item = item, ic_count = count\<rparr>)
       (slice 0 (case limit of None \<Rightarrow> 10 | Some l \<Rightarrow> l)
          (array_sort (\<lambda>a b. snd b - snd a) (object_entries (item_counts orders))))"

text \<open>
  The item names of the input in the order of the line items, and an item's total: its
  quantities added, in the order of the input, as the program adds them.
\<close>

definition item_names :: "order list \<Rightarrow> string list" where
  "item_names orders = map li_item (concat (map o_orders orders))"

definition item_total :: "order list \<Rightarrow> string \<Rightarrow> int" where
  "item_total orders item =
     foldl js_add 0
       (map li_qty (filter (\<lambda>i. li_item i = item) (concat (map o_orders orders))))"

definition plain_name :: "string \<Rightarrow> bool" where
  "plain_name item = (item \<notin> set object_prototype_names)"

subsection \<open>getOrdersOverTime\<close>

text \<open>
  The bucket key is the text of \<^verbatim>\<open>order.time\<close> before its first
  colon (\<^verbatim>\<open>split(':')[0]\<close>) followed by
  \<^verbatim>\<open>PM\<close> when the time contains \<^verbatim>\<open>PM\<close> and
  by \<^verbatim>\<open>AM\<close> otherwise. The entries are sorted by
  \<^verbatim>\<open>getHour(a.time) - getHour(b.time)\<close>.
\<close>

record time_bucket =
  tb_time :: string
  tb_orders :: int

definition time_key :: "string \<Rightarrow> string" where
  "time_key t =
     (let hour = takeWhile (\<lambda>c. c \<noteq> CHR '':'') t;
          period = (if includes_str t ''PM'' then ''PM'' else ''AM'')
      in hour @ period)"

definition count_order :: "int js_object \<Rightarrow> order \<Rightarrow> int js_object" where
  "count_order timeData order =
     AList.update (time_key (o_time order))
       (count_of timeData (time_key (o_time order)) + 1) timeData"

definition time_data :: "order list \<Rightarrow> int js_object" where
  "time_data orders = foldl count_order [] orders"

text \<open>
  \<^verbatim>\<open>parseInt(s)\<close>: leading white space, an optional sign, an
  optional \<^verbatim>\<open>0x\<close> that selects base 16, then the longest run of
  digits; \<open>None\<close> is \<^verbatim>\<open>NaN\<close>, returned when there is no
  digit.
\<close>

definition is_space :: "char \<Rightarrow> bool" where
  "is_space c = (c \<in> set [CHR '' '', CHR 0x09, CHR 0x0A, CHR 0x0B, CHR 0x0C, CHR 0x0D])"

definition radix_digit :: "nat \<Rightarrow> char \<Rightarrow> nat option" where
  "radix_digit radix c =
     (let v = (if CHR ''0'' \<le> c \<and> c \<le> CHR ''9'' then Some (of_char c - 48)
               else if CHR ''a'' \<le> c \<and> c \<le> CHR ''f'' then Some (of_char c - 87)
               else if CHR ''A'' \<le> c \<and> c \<le> CHR ''F'' then Some (of_char c - 55)
               else None)
      in case v of Some d \<Rightarrow> if d < radix then Some d else None | None \<Rightarrow> None)"

definition parseInt :: "string \<Rightarrow> int option" where
  "parseInt s =
     (let s1 = dropWhile is_space s;
          negative = (s1 \<noteq> [] \<and> hd s1 = CHR ''-'');
          s2 = (if s1 \<noteq> [] \<and> (hd s1 = CHR ''-'' \<or> hd s1 = CHR ''+'') then tl s1 else s1);
          hex = (prefix ''0x'' s2 \<or> prefix ''0X'' s2);
          radix = (if hex then 16 else 10);
          s3 = (if hex then drop 2 s2 else s2);
          ds = takeWhile (\<lambda>c. radix_digit radix c \<noteq> None) s3
      in if ds = [] then None
         else Some ((if negative then - 1 else 1)
                * int (foldl (\<lambda>n c. radix * n + the (radix_digit radix c)) 0 ds)))"

definition slice_from :: "int \<Rightarrow> 'a list \<Rightarrow> 'a list" where
  "slice_from start xs = drop (slice_index (length xs) start) xs"

definition getHour :: "string \<Rightarrow> int option" where
  "getHour timeStr =
     (let hour = parseInt (slice 0 (- 2) timeStr);
          period = slice_from (- 2) timeStr
      in if period = ''PM'' \<and> hour \<noteq> Some 12 then map_option (\<lambda>h. h + 12) hour else hour)"

text \<open>
  The comparator \<^verbatim>\<open>getHour(a.time) - getHour(b.time)\<close>. When a key has
  no hour that \<^verbatim>\<open>parseInt\<close> can read, the difference is
  \<^verbatim>\<open>NaN\<close>, which \<^verbatim>\<open>sort\<close> reads as 0; the order of
  the series is then implementation-defined, and nothing is proved about it.
\<close>

definition by_hour :: "time_bucket \<Rightarrow> time_bucket \<Rightarrow> int" where
  "by_hour a b =
     (case (getHour (tb_time a), getHour (tb_time b)) of
        (Some x, Some y) \<Rightarrow> x - y
      | _ \<Rightarrow> 0)"

definition getOrdersOverTime :: "order list \<Rightarrow> time_bucket list" where
  "getOrdersOverTime orders =
     array_sort by_hour
       (map (\<lambda>(time, count). \<lparr>tb_time = time, tb_orders = count\<rparr>)
          (object_entries (time_data orders)))"

definition order_at :: "string \<Rightarrow> order" where
  "order_at t =
     \<lparr>o_id = 1, o_name = ''Raj Kumar'', o_phone = ''9999999999'',
      o_orders = [\<lparr>li_item = ''Shirt'', li_qty = 1\<rparr>], o_time = t, o_date = ''2024-10-17''\<rparr>"

section \<open>View engine (OrdersTable)\<close>

text \<open>
  \<^verbatim>\<open>filteredAndSortedOrders\<close> starts from the array
  \<^verbatim>\<open>flattenedOrders\<close>, replaces it by the result of
  \<^verbatim>\<open>Array.prototype.filter\<close> (a new array) for each filter that is
  not empty, and then calls \<^verbatim>\<open>sort\<close> on whatever array it holds;
  \<^verbatim>\<open>sort\<close> reorders that array itself. Arrays are therefore kept in
  a store, and a variable holds the address of its array.
\<close>

record filters =
  f_search :: string
  f_itemType :: string

record sort_config =
  sc_key :: string
  sc_direction :: string

type_synonym heap = "row list list"

definition alloc :: "heap \<Rightarrow> row list \<Rightarrow> nat \<times> heap" where
  "alloc h rows = (length h, h @ [rows])"

text \<open>
  \<^verbatim>\<open>a[sortConfig.key]\<close>: the fields of a row are strings, except
  the quantity, which is a number; any other key reads
  \<^verbatim>\<open>undefined\<close> (or the same inherited member on every row), which
  is neither smaller nor greater than itself.
\<close>

datatype js_value = JString string | JNumber int | JUndefined

definition row_field :: "string \<Rightarrow> row \<Rightarrow> js_value" where
  "row_field key r =
     (if key = ''id'' then JString (r_id r)
      else if key = ''name'' then JString (r_name r)
      else if key = ''phone'' then JString (r_phone r)
      else if key = ''item'' then JString (r_item r)
      else if key = ''quantity'' then JNumber (r_quantity r)
      else if key = ''time'' then JString (r_time r)
      else if key = ''date'' then JString (r_date r)
      else JUndefined)"

definition is_string :: "js_value \<Rightarrow> bool" where
  "is_string v = (case v of JString _ \<Rightarrow> True | _ \<Rightarrow> False)"

definition lowered :: "(string \<Rightarrow> string) \<Rightarrow> js_value \<Rightarrow> js_value" where
  "lowered toLowerCase v = (case v of JString s \<Rightarrow> JString (toLowerCase s) | _ \<Rightarrow> v)"

text \<open>
  \<^verbatim>\<open>aValue < bValue\<close> on two strings (by character codes, a proper
  prefix first) or on two numbers. The two values are fields of the same name, so they are
  never one string and one number.
\<close>

definition js_less :: "js_value \<Rightarrow> js_value \<Rightarrow> bool" where
  "js_less a b =
     (case (a, b) of
        (JString x, JString y) \<Rightarrow> x < y
      | (JNumber x, JNumber y) \<Rightarrow> x < y
      | _ \<Rightarrow> False)"

definition compare_rows ::
  "(string \<Rightarrow> string) \<Rightarrow> sort_config \<Rightarrow> row \<Rightarrow> row \<Rightarrow> int"
where
  "compare_rows toLowerCase sortConfig a b =
     (let aValue = row_field (sc_key sortConfig) a;
          bValue = row_field (sc_key sortConfig) b;
          string = is_string aValue;
          aValue = (if string then lowered toLowerCase aValue else aValue);
          bValue = (if string then lowered toLowerCase bValue else bValue)
      in if js_less aValue bValue then (if sc_direction sortConfig = ''asc'' then - 1 else 1)
         else if js_less bValue aValue then (if sc_direction sortConfig = ''asc'' then 1 else - 1)
         else 0)"

definition matches_search :: "(string \<Rightarrow> string) \<Rightarrow> string \<Rightarrow> row \<Rightarrow> bool" where
  "matches_search toLowerCase search order =
     (includes_str (toLowerCase (r_name order)) (toLowerCase search)
      \<or> includes_str (r_phone order) search
      \<or> includes_str (toLowerCase (r_item order)) (toLowerCase search))"

definition filteredAndSortedOrders ::
  "(string \<Rightarrow> string) \<Rightarrow> heap \<Rightarrow> nat \<Rightarrow> filters \<Rightarrow> sort_config \<Rightarrow> nat \<times> heap"
where
  "filteredAndSortedOrders toLowerCase h flat filters sortConfig =
     (let filtered = flat;
          (filtered, h) =
            (if f_search filters \<noteq> []
             then alloc h (filter (matches_search toLowerCase (f_search filters)) (h ! filtered))
             else (filtered, h));
          (filtered, h) =
            (if f_itemType filters \<noteq> []
             then alloc h (filter (\<lambda>order. r_item order = f_itemType filters) (h ! filtered))
             else (filtered, h));
          h = (if sc_key sortConfig \<noteq> []
               then h[filtered := array_sort (compare_rows toLowerCase sortConfig) (h ! filtered)]
               else h)
      in (filtered, h))"

text \<open>The rows that pass the filters, and the rows in the order of the sort, as values.\<close>

definition filtered_rows :: "(string \<Rightarrow> string) \<Rightarrow> filters \<Rightarrow> row list \<Rightarrow> row list" where
  "filtered_rows toLowerCase filters rows =
     (let rows1 = (if f_search filters \<noteq> []
                   then filter (matches_search toLowerCase (f_search filters)) rows else rows)
      in if f_itemType filters \<noteq> []
         then filter (\<lambda>order. r_item order = f_itemType filters) rows1 else rows1)"

definition sorted_rows :: "(string \<Rightarrow> string) \<Rightarrow> sort_config \<Rightarrow> row list \<Rightarrow> row list" where
  "sorted_rows toLowerCase sortConfig rows =
     (if sc_key sortConfig \<noteq> [] then array_sort (compare_rows toLowerCase sortConfig) rows else rows)"

definition sample_row :: "string \<Rightarrow> string \<Rightarrow> row" where
  "sample_row name item =
     \<lparr>r_id = ''1-'' @ item, r_name = name, r_phone = ''9999999999'', r_item = item,
      r_quantity = 1, r_time = ''10:05 AM'', r_date = ''2024-10-17''\<rparr>"

section \<open>Vocabulary of the proofs\<close>

text \<open>
  Both counting loops of the aggregator run
  \<^verbatim>\<open>obj[k] = (obj[k] || 0) + w\<close> over a sequence of keys with
  weights: \<open>tally\<close> is that loop for a given addition, \<open>weight_of\<close>
  the total weight that the sequence gives a key, added up in the order of the sequence.
\<close>

definition tally ::
  "(int \<Rightarrow> int \<Rightarrow> int) \<Rightarrow> int js_object \<Rightarrow> (string \<times> int) list \<Rightarrow> int js_object"
where
  "tally add obj kws =
     foldl (\<lambda>obj kw. AList.update (fst kw) (add (count_of obj (fst kw)) (snd kw)) obj) obj kws"

definition weight_of :: "(int \<Rightarrow> int \<Rightarrow> int) \<Rightarrow> (string \<times> int) list \<Rightarrow> string \<Rightarrow> int" where
  "weight_of add kws k = foldl add 0 (map snd (filter (\<lambda>kw. fst kw = k) kws))"

definition graph_of :: "('k \<Rightarrow> 'v) \<Rightarrow> 'k list \<Rightarrow> ('k \<times> 'v) list" where
  "graph_of f ks = map (\<lambda>k. (k, f k)) ks"

text \<open>The keys and weights that \<^verbatim>\<open>getOrdersOverTime\<close> counts: every order once, under its bucket key.\<close>

definition time_tally :: "order list \<Rightarrow> (string \<times> int) list" where
  "time_tally orders = map (\<lambda>order. (time_key (o_time order), 1)) orders"

text \<open>
  The keys and weights that \<^verbatim>\<open>getTopItems\<close> counts (every line item
  under its name), its comparator, the entry that the input gives an item, and two sample
  orders: one whose items are named by numbers, one with two items of equal quantity.
\<close>

definition item_tally :: "order list \<Rightarrow> (string \<times> int) list" where
  "item_tally orders = map (\<lambda>item. (li_item item, li_qty item)) (concat (map o_orders orders))"

definition by_count :: "string \<times> int \<Rightarrow> string \<times> int \<Rightarrow> int" where
  "by_count a b = snd b - snd a"

definition item_entry :: "order list \<Rightarrow> string \<Rightarrow> string \<times> int" where
  "item_entry orders item = (item, item_total orders item)"

definition numbered_order :: order where
  "numbered_order =
     \<lparr>o_id = 1, o_name = ''Raj Kumar'', o_phone = ''9999999999'',
      o_orders = [\<lparr>li_item = ''2'', li_qty = 1\<rparr>, \<lparr>li_item = ''1'', li_qty = 1\<rparr>],
      o_time = ''10:05 AM'', o_date = ''2024-10-17''\<rparr>"

definition tied_order :: order where
  "tied_order =
     \<lparr>o_id = 1, o_name = ''Raj Kumar'', o_phone = ''9999999999'',
      o_orders = [\<lparr>li_item = ''Shirt'', li_qty = 2\<rparr>, \<lparr>li_item = ''Kurti'', li_qty = 2\<rparr>,
                  \<lparr>li_item = ''Saree'', li_qty = 5\<rparr>],
      o_time = ''10:05 AM'', o_date = ''2024-10-17''\<rparr>"

text \<open>
  For \<^verbatim>\<open>getOrdersSummary\<close>: the sum of the totals held in the
  object, and what the inner loop over the line items of one order does to a summary.
\<close>

definition total_of :: "customer_summary js_object \<Rightarrow> int" where
  "total_of summary = sum_list (map (\<lambda>p. s_totalQuantity (snd p)) summary)"

definition add_order_items :: "customer_summary \<Rightarrow> line_item list \<Rightarrow> customer_summary" where
  "add_order_items s items =
     s\<lparr>s_items := foldl (\<lambda>acc item. accumulate_item item acc) (s_items s) items,
       s_totalQuantity := foldl js_add (s_totalQuantity s) (map li_qty items)\<rparr>"

text \<open>
  Two more sample orders: one whose phone is not normalised and that lists an item twice,
  and one whose quantities reach \<open>2^53\<close>.
\<close>

definition hyphen_order :: order where
  "hyphen_order =
     \<lparr>o_id = 1, o_name = ''Raj'', o_phone = ''99999-99999'',
      o_orders = [\<lparr>li_item = ''Shirt'', li_qty = 10\<rparr>, \<lparr>li_item = ''Jeans'', li_qty = 5\<rparr>,
                  \<lparr>li_item = ''Shirt'', li_qty = 2\<rparr>],
      o_time = ''10:05 AM'', o_date = ''2024-10-17''\<rparr>"

definition large_order :: order where
  "large_order =
     \<lparr>o_id = 1, o_name = ''Raj'', o_phone = ''9999999999'',
      o_orders = [\<lparr>li_item = ''Shirt'', li_qty = 9007199254740992\<rparr>,
                  \<lparr>li_item = ''Jeans'', li_qty = 1\<rparr>, \<lparr>li_item = ''Saree'', li_qty = 1\<rparr>],
      o_time = ''10:05 AM'', o_date = ''2024-10-17''\<rparr>"

text \<open>
  For the view engine: the value that the comparator looks at (the field named by the
  sort key, lowercased when it is a string), and sample rows whose names differ in case.
\<close>

definition sort_value :: "(string \<Rightarrow> string) \<Rightarrow> sort_config \<Rightarrow> row \<Rightarrow> js_value" where
  "sort_value toLowerCase sortConfig r = lowered toLowerCase (row_field (sc_key sortConfig) r)"

definition name_asc :: sort_config where
  "name_asc = \<lparr>sc_key = ''name'', sc_direction = ''asc''\<rparr>"

definition sample_rows :: "row list" where
  "sample_rows = [sample_row ''bob'' ''Shirt'', sample_row ''Alice'' ''Saree'', sample_row ''BOB'' ''Jeans'']"

section \<open>Facts about the sort\<close>

lemma mset_insert_by: "mset (insert_by cmp x ys) = add_mset x (mset ys)"
  by (induction ys) auto

lemma mset_array_sort: "mset (array_sort cmp xs) = mset xs"
  unfolding array_sort_def by (induction xs) (auto simp: mset_insert_by)

lemma set_array_sort: "set (array_sort cmp xs) = set xs"
  using mset_array_sort [of cmp xs] by (metis set_mset_mset)

lemma length_array_sort: "length (array_sort cmp xs) = length xs"
  using mset_array_sort [of cmp xs] by (metis size_mset)

lemma filter_insert_by:
  assumes "\<And>a b. P a \<Longrightarrow> P b \<Longrightarrow> cmp a b \<le> 0"
  shows "filter P (insert_by cmp x ys) = (if P x then x # filter P ys else filter P ys)"
proof (induction ys)
  case Nil
  then show ?case by simp
next
  case (Cons y ys)
  show ?case
  proof (cases "cmp x y \<le> 0")
    case True
    then show ?thesis by simp
  next
    case False
    then have "\<not> (P x \<and> P y)" using assms by blast
    with False Cons show ?thesis by auto
  qed
qed

lemma filter_array_sort:
  assumes "\<And>a b. P a \<Longrightarrow> P b \<Longrightarrow> cmp a b \<le> 0"
  shows "filter P (array_sort cmp xs) = filter P xs"
proof (induction xs)
  case Nil
  then show ?case by (simp add: array_sort_def)
next
  case (Cons x xs)
  have "array_sort cmp (x # xs) = insert_by cmp x (array_sort cmp xs)"
    by (simp add: array_sort_def)
  with Cons show ?case using filter_insert_by [of P cmp x, OF assms] by simp
qed

lemma set_insert_by: "set (insert_by cmp x ys) = insert x (set ys)"
  by (induction ys) auto

lemma sorted_wrt_insert_by:
  assumes total: "\<And>a b. cmp a b \<le> 0 \<or> cmp b a \<le> 0"
    and trans: "\<And>a b c. cmp a b \<le> 0 \<Longrightarrow> cmp b c \<le> 0 \<Longrightarrow> cmp a c \<le> 0"
    and sorted: "sorted_wrt (\<lambda>a b. cmp a b \<le> 0) ys"
  shows "sorted_wrt (\<lambda>a b. cmp a b \<le> 0) (insert_by cmp x ys)"
  using sorted
proof (induction ys)
  case Nil
  then show ?case by simp
next
  case (Cons y ys)
  show ?case
  proof (cases "cmp x y \<le> 0")
    case True
    with Cons.prems show ?thesis using trans by auto
  next
    case False
    then have "cmp y x \<le> 0" using total [of x y] by simp
    with False Cons show ?thesis by (auto simp: set_insert_by)
  qed
qed

lemma sorted_wrt_array_sort:
  assumes total: "\<And>a b. cmp a b \<le> 0 \<or> cmp b a \<le> 0"
    and trans: "\<And>a b c. cmp a b \<le> 0 \<Longrightarrow> cmp b c \<le> 0 \<Longrightarrow> cmp a c \<le> 0"
  shows "sorted_wrt (\<lambda>a b. cmp a b \<le> 0) (array_sort cmp xs)"
proof (induction xs)
  case Nil
  then show ?case by (simp add: array_sort_def)
next
  case (Cons x xs)
  have "array_sort cmp (x # xs) = insert_by cmp x (array_sort cmp xs)"
    by (simp add: array_sort_def)
  with Cons show ?case using sorted_wrt_insert_by [of cmp _ x, OF total trans] by simp
qed

section \<open>Facts about objects and counting\<close>

lemma first_seen_set [simp]: "set (first_seen xs) = set xs"
  by (induction xs) auto

lemma first_seen_distinct [simp]: "distinct (first_seen xs)"
  by (induction xs) auto

lemma first_seen_snoc:
  "first_seen (xs @ [x]) = (if x \<in> set xs then first_seen xs else first_seen xs @ [x])"
  by (induction xs) auto

lemma map_of_graph_of: "map_of (graph_of f ks) k = (if k \<in> set ks then Some (f k) else None)"
  unfolding graph_of_def by (induction ks) auto

lemma update_graph_of:
  "distinct ks \<Longrightarrow>
   AList.update k v (graph_of f ks) =
     (if k \<in> set ks then graph_of (f(k := v)) ks else graph_of f ks @ [(k, v)])"
  unfolding graph_of_def by (induction ks) auto

lemma graph_of_cong: "(\<And>k. k \<in> set ks \<Longrightarrow> f k = g k) \<Longrightarrow> graph_of f ks = graph_of g ks"
  by (simp add: graph_of_def)

lemma graph_of_snoc: "graph_of f (ks @ [k]) = graph_of f ks @ [(k, f k)]"
  by (simp add: graph_of_def)

lemma weight_of_snoc:
  "weight_of add (kws @ [kw]) k =
     (if fst kw = k then add (weight_of add kws k) (snd kw) else weight_of add kws k)"
  by (simp add: weight_of_def)

lemma weight_of_absent: "k \<notin> fst ` set kws \<Longrightarrow> weight_of add kws k = 0"
proof -
  assume "k \<notin> fst ` set kws"
  then have "filter (\<lambda>kw. fst kw = k) kws = []"
    by (auto simp: filter_empty_conv)
  then show ?thesis by (simp add: weight_of_def)
qed

lemma count_of_graph_of:
  "plain_name k \<Longrightarrow> count_of (graph_of f ks) k = (if k \<in> set ks then f k else 0)"
  by (simp add: count_of_def get_prop_def map_of_graph_of plain_name_def)

lemma tally_snoc:
  "tally add obj (kws @ [kw]) =
     AList.update (fst kw) (add (count_of (tally add obj kws) (fst kw)) (snd kw))
       (tally add obj kws)"
  by (simp add: tally_def)

lemma tally_graph:
  "list_all plain_name (map fst kws) \<Longrightarrow>
   tally add [] kws = graph_of (weight_of add kws) (first_seen (map fst kws))"
proof (induction kws rule: rev_induct)
  case Nil
  then show ?case by (simp add: tally_def graph_of_def)
next
  case (snoc kw kws)
  let ?ks = "first_seen (map fst kws)"
  let ?w = "add (weight_of add kws (fst kw)) (snd kw)"
  from snoc.prems have plain: "plain_name (fst kw)" and rest: "list_all plain_name (map fst kws)"
    by simp_all
  have ih: "tally add [] kws = graph_of (weight_of add kws) ?ks"
    using snoc.IH rest by simp
  have cnt: "count_of (graph_of (weight_of add kws) ?ks) (fst kw) = weight_of add kws (fst kw)"
    using plain by (simp add: count_of_graph_of weight_of_absent)
  have c: "weight_of add (kws @ [kw]) (fst kw) = ?w"
    by (simp add: weight_of_snoc)
  show ?case
  proof (cases "fst kw \<in> set (map fst kws)")
    case True
    have "tally add [] (kws @ [kw]) = graph_of ((weight_of add kws)(fst kw := ?w)) ?ks"
      using True by (simp add: tally_snoc cnt ih update_graph_of)
    also have "\<dots> = graph_of (weight_of add (kws @ [kw])) ?ks"
      by (rule graph_of_cong) (simp add: weight_of_snoc)
    finally show ?thesis using True by (simp add: first_seen_snoc)
  next
    case False
    have a: "tally add [] (kws @ [kw]) = graph_of (weight_of add kws) ?ks @ [(fst kw, ?w)]"
      using False by (simp add: tally_snoc cnt ih update_graph_of)
    have b: "graph_of (weight_of add kws) ?ks = graph_of (weight_of add (kws @ [kw])) ?ks"
      by (rule graph_of_cong) (use False in \<open>auto simp: weight_of_snoc\<close>)
    have "first_seen (map fst (kws @ [kw])) = ?ks @ [fst kw]"
      using False by (simp add: first_seen_snoc)
    then show ?thesis
      by (simp only: a b c graph_of_snoc)
  qed
qed

lemma foldl_plus_int: "foldl (+) (a::int) xs = a + sum_list xs"
  by (induction xs arbitrary: a) simp_all

lemma sum_update_count:
  "sum_list (map snd (AList.update k (count_of obj k + w) obj)) = sum_list (map snd obj) + w"
proof -
  have "sum_list (map snd (AList.update k (c + w) obj)) = sum_list (map snd obj) + w"
    if "c = (case map_of obj k of Some v \<Rightarrow> v | None \<Rightarrow> 0)" for c
    using that by (induction obj arbitrary: c) (auto split: option.splits)
  moreover have "count_of obj k = (case map_of obj k of Some v \<Rightarrow> v | None \<Rightarrow> 0)"
    by (simp add: count_of_def get_prop_def split: option.splits)
  ultimately show ?thesis by simp
qed

lemma sum_tally:
  "sum_list (map snd (tally (+) obj kws)) = sum_list (map snd obj) + sum_list (map snd kws)"
  by (induction kws rule: rev_induct) (simp_all add: tally_snoc sum_update_count, simp add: tally_def)

lemma mset_object_entries: "mset (object_entries obj) = mset obj"
  by (simp add: object_entries_def)

lemma object_entries_plain:
  "list_all (\<lambda>k. \<not> is_array_index k) (map fst obj) \<Longrightarrow> object_entries obj = obj"
proof -
  assume a: "list_all (\<lambda>k. \<not> is_array_index k) (map fst obj)"
  then have "filter (\<lambda>p. is_array_index (fst p)) obj = []"
    by (auto simp: filter_empty_conv list_all_iff)
  moreover have "filter (\<lambda>p. \<not> is_array_index (fst p)) obj = obj"
    using a by (auto simp: filter_id_conv list_all_iff)
  ultimately show ?thesis by (simp add: object_entries_def)
qed

section \<open>Facts about the time bucketer\<close>

lemma last_time_key: "last (time_key t) = CHR ''M''"
  by (simp add: time_key_def Let_def)

lemma time_key_plain: "plain_name (time_key t)"
proof -
  have "\<forall>n\<in>set object_prototype_names. last n \<noteq> CHR ''M''"
    by (simp add: object_prototype_names_def)
  then show ?thesis
    unfolding plain_name_def using last_time_key [of t] by metis
qed

lemma time_key_not_index: "\<not> is_array_index (time_key t)"
proof
  assume "is_array_index (time_key t)"
  then have "time_key t \<noteq> []" and "list_all is_digit (time_key t)"
    by (simp_all add: is_array_index_def)
  then have "is_digit (last (time_key t))"
    by (simp add: list_all_iff)
  then show False
    by (simp add: last_time_key is_digit_def)
qed

lemma time_data_tally: "time_data orders = tally (+) [] (time_tally orders)"
  by (simp add: time_data_def tally_def time_tally_def foldl_map count_order_def [abs_def])

lemma weight_of_time_tally:
  "weight_of (+) (time_tally orders) k = int (length (filter (\<lambda>order. time_key (o_time order) = k) orders))"
  unfolding weight_of_def time_tally_def foldl_plus_int by (induction orders) auto

lemma time_data_graph:
  "time_data orders =
     graph_of (weight_of (+) (time_tally orders)) (first_seen (map (\<lambda>order. time_key (o_time order)) orders))"
proof -
  have "list_all plain_name (map fst (time_tally orders))"
    by (simp add: time_tally_def list_all_iff time_key_plain)
  then have "tally (+) [] (time_tally orders) =
      graph_of (weight_of (+) (time_tally orders)) (first_seen (map fst (time_tally orders)))"
    by (rule tally_graph)
  moreover have "map fst (time_tally orders) = map (\<lambda>order. time_key (o_time order)) orders"
    by (simp add: time_tally_def)
  ultimately show ?thesis by (simp add: time_data_tally)
qed

lemma object_entries_time_data: "object_entries (time_data orders) = time_data orders"
proof (rule object_entries_plain)
  show "list_all (\<lambda>k. \<not> is_array_index k) (map fst (time_data orders))"
    by (auto simp: time_data_graph graph_of_def list_all_iff time_key_not_index)
qed

lemma set_getOrdersOverTime:
  "set (getOrdersOverTime orders) =
     (\<lambda>k. \<lparr>tb_time = k, tb_orders = int (length (filter (\<lambda>order. time_key (o_time order) = k) orders))\<rparr>)
       ` (\<lambda>order. time_key (o_time order)) ` set orders"
proof -
  have "set (getOrdersOverTime orders) =
      (\<lambda>(time, count). \<lparr>tb_time = time, tb_orders = count\<rparr>) ` set (time_data orders)"
    by (simp add: getOrdersOverTime_def set_array_sort object_entries_time_data)
  also have "\<dots> = (\<lambda>k. \<lparr>tb_time = k, tb_orders = weight_of (+) (time_tally orders) k\<rparr>)
      ` (\<lambda>order. time_key (o_time order)) ` set orders"
    by (simp add: time_data_graph graph_of_def image_image)
  finally show ?thesis by (simp add: weight_of_time_tally)
qed

lemma sum_getOrdersOverTime:
  "sum_list (map tb_orders (getOrdersOverTime orders)) = int (length orders)"
proof -
  let ?mk = "\<lambda>(time, count). \<lparr>tb_time = time, tb_orders = count\<rparr>"
  have "mset (getOrdersOverTime orders) = mset (map ?mk (time_data orders))"
    by (simp add: getOrdersOverTime_def mset_array_sort object_entries_time_data)
  then have "mset (map tb_orders (getOrdersOverTime orders)) = mset (map tb_orders (map ?mk (time_data orders)))"
    by (metis mset_map)
  then have "sum_list (map tb_orders (getOrdersOverTime orders))
      = sum_list (map tb_orders (map ?mk (time_data orders)))"
    by (metis sum_mset_sum_list)
  also have "map tb_orders (map ?mk (time_data orders)) = map snd (time_data orders)"
    by (simp add: case_prod_unfold)
  also have "sum_list (map snd (time_data orders)) = sum_list (map snd (time_tally orders))"
    by (simp add: time_data_tally sum_tally)
  also have "\<dots> = int (length orders)"
    unfolding time_tally_def by (induction orders) auto
  finally show ?thesis .
qed

lemma includes_str_append: "includes_str ys sub \<Longrightarrow> includes_str (xs @ ys) sub"
  by (induction xs) simp_all

lemma includes_str_mem: "includes_str s (c # sub) \<Longrightarrow> c \<in> set s"
proof (induction s)
  case Nil
  then show ?case by simp
next
  case (Cons a s)
  then show ?case by (cases "a = c") simp_all
qed

lemma digits_no_colon: "list_all is_digit s \<Longrightarrow> CHR '':'' \<notin> set s \<and> CHR ''P'' \<notin> set s"
proof -
  assume a: "list_all is_digit s"
  have "\<not> is_digit CHR '':''" and "\<not> is_digit CHR ''P''"
    by (simp_all add: is_digit_def)
  with a show ?thesis
    unfolding list_all_iff by blast
qed

lemma time_key_clock:
  assumes "list_all is_digit hh" and "list_all is_digit mm" and "d = ''AM'' \<or> d = ''PM''"
  shows "time_key (hh @ '':'' @ mm @ '' '' @ d) = hh @ d"
proof -
  let ?t = "hh @ '':'' @ mm @ '' '' @ d"
  have hour: "takeWhile (\<lambda>c. c \<noteq> CHR '':'') ?t = hh"
    using digits_no_colon [OF assms(1)] by (auto simp add: takeWhile_tail takeWhile_eq_all_conv)
  show ?thesis
  proof (cases "d = ''PM''")
    case True
    have "includes_str ((hh @ '':'' @ mm @ '' '') @ ''PM'') ''PM''"
      by (rule includes_str_append) simp
    then show ?thesis using True hour by (simp add: time_key_def)
  next
    case False
    then have d: "d = ''AM''" using assms(3) by simp
    have "CHR ''P'' \<notin> set ?t"
      using digits_no_colon [OF assms(1)] digits_no_colon [OF assms(2)] d by simp
    then have "\<not> includes_str ?t ''PM''"
      using includes_str_mem by blast
    then show ?thesis using d hour by (simp add: time_key_def)
  qed
qed

section \<open>Facts about the item ranking\<close>

lemma foldl_foldl_concat: "foldl (\<lambda>acc xs. foldl f acc xs) a xss = foldl f a (concat xss)"
  by (induction xss arbitrary: a) simp_all

lemma item_counts_tally: "item_counts orders = tally js_add [] (item_tally orders)"
proof -
  have "item_counts orders = foldl count_item [] (concat (map o_orders orders))"
    by (simp add: item_counts_def foldl_map foldl_foldl_concat [symmetric])
  also have "\<dots> = tally js_add [] (item_tally orders)"
    by (simp add: tally_def item_tally_def foldl_map count_item_def [abs_def])
  finally show ?thesis .
qed

lemma map_fst_item_tally: "map fst (item_tally orders) = item_names orders"
  by (simp add: item_tally_def item_names_def)

lemma weight_of_item_tally: "weight_of js_add (item_tally orders) item = item_total orders item"
  by (simp add: weight_of_def item_tally_def item_total_def filter_map comp_def)

lemma item_counts_graph:
  assumes "list_all plain_name (item_names orders)"
  shows "item_counts orders = map (item_entry orders) (first_seen (item_names orders))"
proof -
  have "tally js_add [] (item_tally orders) =
      graph_of (weight_of js_add (item_tally orders)) (first_seen (map fst (item_tally orders)))"
    using assms by (intro tally_graph) (simp add: map_fst_item_tally)
  then show ?thesis
    by (simp add: item_counts_tally map_fst_item_tally graph_of_def item_entry_def [abs_def]
        weight_of_item_tally)
qed

lemma slice_zero: "slice 0 l xs = take (slice_index (length xs) l) xs"
  by (simp add: slice_def slice_index_def)

lemma getTopItems_take:
  "getTopItems orders limit =
     map (\<lambda>(item, count). \<lparr>ic_item = item, ic_count = count\<rparr>)
       (take (slice_index (length (item_counts orders)) (case limit of None \<Rightarrow> 10 | Some l \<Rightarrow> l))
          (array_sort by_count (object_entries (item_counts orders))))"
proof -
  have "length (array_sort by_count (object_entries (item_counts orders))) = length (item_counts orders)"
    using mset_object_entries [of "item_counts orders"]
    by (metis length_array_sort size_mset)
  then show ?thesis
    by (simp add: getTopItems_def slice_zero by_count_def [abs_def])
qed

lemma mset_ranking:
  assumes "list_all plain_name (item_names orders)"
  shows "mset (array_sort by_count (object_entries (item_counts orders)))
    = mset (map (item_entry orders) (first_seen (item_names orders)))"
  by (simp add: mset_array_sort mset_object_entries item_counts_graph [OF assms])

lemma length_item_counts:
  assumes "list_all plain_name (item_names orders)"
  shows "length (item_counts orders) = length (first_seen (item_names orders))"
  by (simp add: item_counts_graph [OF assms])

lemma plain_raj: "list_all plain_name (item_names raj_orders)"
  by (simp add: item_names_def raj_orders_def plain_name_def object_prototype_names_def)

lemma first_seen_raj: "first_seen (item_names raj_orders) = [''Shirt'', ''Jeans'', ''Saree'']"
  by (simp add: item_names_def raj_orders_def)

lemma subseq_take_left: "subseq (take n xs) xs"
  by (metis append_take_drop_id subseq_order.order_refl subseq_rev_drop_many)

lemma sorted_ranking:
  "sorted_wrt (\<lambda>a b. snd b \<le> snd a) (array_sort by_count es)"
proof -
  have "sorted_wrt (\<lambda>a b. by_count a b \<le> 0) (array_sort by_count es)"
    by (rule sorted_wrt_array_sort) (auto simp: by_count_def)
  then show ?thesis by (simp add: by_count_def)
qed

lemma stable_ranking:
  "filter (\<lambda>p. snd p = c) (array_sort by_count es) = filter (\<lambda>p. snd p = c) es"
  by (rule filter_array_sort) (simp add: by_count_def)

lemma pair_order_ranking:
  assumes "subseq [p, q] (array_sort by_count es)" and "snd p = snd q"
  shows "subseq [p, q] es"
proof -
  let ?P = "\<lambda>e. snd e = snd p"
  have "subseq (filter ?P [p, q]) (filter ?P (array_sort by_count es))"
    using assms(1) by (rule subseq_filter)
  then have "subseq [p, q] (filter ?P es)"
    using assms(2) by (simp add: stable_ranking)
  moreover have "subseq (filter ?P es) es"
    by simp
  ultimately show ?thesis
    by (rule subseq_order.trans)
qed

lemmas getTopItems_eval =
  getTopItems_def item_counts_def count_item_def count_of_def get_prop_def js_add_def
  round_double_def
  object_prototype_names_def object_entries_def is_array_index_def is_digit_def
  nat_of_string_def digit_value_def array_sort_def slice_def slice_index_def

section \<open>Facts about the customer summaries\<close>

lemma last_summary_key: "o_phone order \<noteq> [] \<Longrightarrow> last (summary_key order) = last (o_phone order)"
  by (simp add: summary_key_def)

lemma valid_phone_last: "valid_phone p \<Longrightarrow> p \<noteq> [] \<and> is_digit (last p)"
  by (cases p rule: rev_cases) (auto simp: valid_phone_def)

lemma summary_key_plain:
  assumes "valid_phone (o_phone order)"
  shows "plain_name (summary_key order)"
proof -
  have "\<forall>n\<in>set object_prototype_names. \<not> is_digit (last n)"
    by (simp add: object_prototype_names_def is_digit_def)
  moreover have "is_digit (last (summary_key order))"
    using valid_phone_last [OF assms] by (simp add: last_summary_key)
  ultimately show ?thesis
    unfolding plain_name_def by metis
qed

lemma summary_key_not_index: "\<not> is_array_index (summary_key order)"
proof
  assume "is_array_index (summary_key order)"
  then have "list_all is_digit (summary_key order)"
    by (simp add: is_array_index_def)
  then have "is_digit CHR ''_''"
    by (simp add: summary_key_def)
  then show False by (simp add: is_digit_def)
qed

lemma get_prop_Own: "map_of obj k = Some v \<Longrightarrow> get_prop obj k = Own v"
  by (simp add: get_prop_def)

lemma get_prop_plain:
  "plain_name k \<Longrightarrow> get_prop obj k = (case map_of obj k of Some v \<Rightarrow> Own v | None \<Rightarrow> Undefined)"
  by (simp add: get_prop_def plain_name_def)

lemma add_order_items_Nil: "add_order_items s [] = s"
  by (simp add: add_order_items_def)

lemma add_order_items_Cons:
  "add_order_items s (item # items) =
     add_order_items
       (s\<lparr>s_items := accumulate_item item (s_items s),
          s_totalQuantity := js_add (s_totalQuantity s) (li_qty item)\<rparr>) items"
  by (simp add: add_order_items_def)

lemma add_items_Own:
  "map_of summary key = Some s \<Longrightarrow>
   add_items summary key items = Inr (AList.update key (add_order_items s items) summary)"
proof (induction items arbitrary: summary s)
  case Nil
  then show ?case by (simp add: add_order_items_Nil update_triv)
next
  case (Cons item items)
  let ?s = "s\<lparr>s_items := accumulate_item item (s_items s),
                s_totalQuantity := js_add (s_totalQuantity s) (li_qty item)\<rparr>"
  have "map_of (AList.update key ?s summary) key = Some ?s"
    by (simp add: update_conv')
  then have "add_items (AList.update key ?s summary) key items =
      Inr (AList.update key (add_order_items ?s items) (AList.update key ?s summary))"
    by (rule Cons.IH)
  then show ?case
    using Cons.prems by (simp add: get_prop_Own add_order_items_Cons)
qed

lemma ensure_summary_plain:
  assumes "plain_name (summary_key order)"
  shows "ensure_summary summary order =
     (case map_of summary (summary_key order) of
        Some s \<Rightarrow> summary
      | None \<Rightarrow> summary @ [(summary_key order, new_summary order)])"
proof -
  have "map_of summary k = None \<Longrightarrow> AList.update k v summary = summary @ [(k, v)]" for k v
    by (induction summary) auto
  then show ?thesis
    by (simp add: ensure_summary_def get_prop_plain [OF assms] split: option.splits)
qed

lemma map_of_ensure_summary:
  assumes "plain_name (summary_key order)"
  shows "map_of (ensure_summary summary order) (summary_key order) =
     Some (case map_of summary (summary_key order) of Some s \<Rightarrow> s | None \<Rightarrow> new_summary order)"
  by (auto simp: ensure_summary_plain [OF assms] map_add_def split: option.splits)

lemma total_of_ensure_summary:
  assumes "plain_name (summary_key order)"
  shows "total_of (ensure_summary summary order) = total_of summary"
  by (simp add: ensure_summary_plain [OF assms] total_of_def new_summary_def split: option.splits)

lemma total_of_update:
  "map_of summary k = Some s \<Longrightarrow>
   total_of (AList.update k s' summary) = total_of summary - s_totalQuantity s + s_totalQuantity s'"
  unfolding total_of_def by (induction summary) auto

lemma js_add_exact: "\<bar>a + b\<bar> \<le> 9007199254740992 \<Longrightarrow> js_add a b = a + b"
  by (simp add: js_add_def round_double_def)

lemma foldl_js_add_exact:
  "0 \<le> a \<Longrightarrow> list_all (\<lambda>q. 0 \<le> q) qs \<Longrightarrow> a + sum_list qs \<le> 9007199254740992 \<Longrightarrow>
   foldl js_add a qs = a + sum_list qs"
proof (induction qs arbitrary: a)
  case Nil
  then show ?case by simp
next
  case (Cons q qs)
  then have q: "0 \<le> q" and rest: "list_all (\<lambda>q. 0 \<le> q) qs"
    by simp_all
  have "0 \<le> sum_list qs"
    using rest by (induction qs) simp_all
  then have "\<bar>a + q\<bar> \<le> 9007199254740992"
    using Cons.prems(1,3) q by simp
  then have step: "js_add a q = a + q"
    by (rule js_add_exact)
  have "foldl js_add (a + q) qs = (a + q) + sum_list qs"
    using Cons.prems(1,3) q rest by (intro Cons.IH) simp_all
  then show ?case
    by (simp add: step)
qed

lemma sum_list_nonneg_int: "list_all (\<lambda>q. 0 \<le> q) qs \<Longrightarrow> (0::int) \<le> sum_list qs"
  by (induction qs) simp_all

lemma entry_total_bounds:
  "map_of summary k = Some s \<Longrightarrow> list_all (\<lambda>p. 0 \<le> s_totalQuantity (snd p)) summary \<Longrightarrow>
   0 \<le> s_totalQuantity s \<and> s_totalQuantity s \<le> total_of summary"
proof (induction summary)
  case Nil
  then show ?case by simp
next
  case (Cons p summary)
  have rest: "0 \<le> total_of summary"
    using Cons.prems(2) unfolding total_of_def by (induction summary) simp_all
  show ?case
  proof (cases "fst p = k")
    case True
    then have "snd p = s" using Cons.prems(1) by (cases p) simp
    then show ?thesis using Cons.prems(2) rest by (simp add: total_of_def)
  next
    case False
    then have "map_of summary k = Some s" using Cons.prems(1) by (cases p) simp
    then have "0 \<le> s_totalQuantity s \<and> s_totalQuantity s \<le> total_of summary"
      using Cons.prems(2) by (intro Cons.IH) simp_all
    then show ?thesis using Cons.prems(2) by (simp add: total_of_def)
  qed
qed

lemma nonneg_update:
  "list_all (\<lambda>p. 0 \<le> s_totalQuantity (snd p)) summary \<Longrightarrow> 0 \<le> s_totalQuantity s' \<Longrightarrow>
   list_all (\<lambda>p. 0 \<le> s_totalQuantity (snd p)) (AList.update k s' summary)"
  by (induction summary) simp_all

lemma nonneg_ensure_summary:
  assumes "plain_name (summary_key order)"
    and "list_all (\<lambda>p. 0 \<le> s_totalQuantity (snd p)) summary"
  shows "list_all (\<lambda>p. 0 \<le> s_totalQuantity (snd p)) (ensure_summary summary order)"
  using assms(2)
  by (simp add: ensure_summary_plain [OF assms(1)] new_summary_def split: option.splits)

lemma step_exact:
  assumes plain: "plain_name (summary_key order)"
    and nonneg: "list_all (\<lambda>p. 0 \<le> s_totalQuantity (snd p)) summary"
    and qtys: "list_all (\<lambda>item. 0 \<le> li_qty item) (o_orders order)"
    and bound: "total_of summary + order_quantity order \<le> 9007199254740992"
  shows "\<exists>summary'. add_items (ensure_summary summary order) (summary_key order) (o_orders order)
            = Inr summary'
          \<and> total_of summary' = total_of summary + order_quantity order
          \<and> list_all (\<lambda>p. 0 \<le> s_totalQuantity (snd p)) summary'"
proof -
  let ?k = "summary_key order"
  let ?ens = "ensure_summary summary order"
  obtain s where s: "map_of ?ens ?k = Some s"
    using map_of_ensure_summary [OF plain] by blast
  have nonneg_ens: "list_all (\<lambda>p. 0 \<le> s_totalQuantity (snd p)) ?ens"
    by (rule nonneg_ensure_summary [OF plain nonneg])
  have s_bounds: "0 \<le> s_totalQuantity s" "s_totalQuantity s \<le> total_of summary"
    using entry_total_bounds [OF s nonneg_ens] total_of_ensure_summary [OF plain] by simp_all
  have qs: "list_all (\<lambda>q. 0 \<le> q) (map li_qty (o_orders order))"
    using qtys by (simp add: list_all_iff)
  have "s_totalQuantity s + sum_list (map li_qty (o_orders order)) \<le> 9007199254740992"
    using s_bounds(2) bound by (simp add: order_quantity_def)
  then have exact: "foldl js_add (s_totalQuantity s) (map li_qty (o_orders order))
      = s_totalQuantity s + sum_list (map li_qty (o_orders order))"
    using s_bounds(1) qs by (intro foldl_js_add_exact)
  let ?s' = "add_order_items s (o_orders order)"
  have total_s': "s_totalQuantity ?s' = s_totalQuantity s + order_quantity order"
    by (simp add: add_order_items_def exact order_quantity_def)
  have run: "add_items ?ens ?k (o_orders order) = Inr (AList.update ?k ?s' ?ens)"
    using s by (rule add_items_Own)
  have total: "total_of (AList.update ?k ?s' ?ens) = total_of summary + order_quantity order"
    by (simp add: total_of_update [OF s] total_of_ensure_summary [OF plain] total_s')
  have "0 \<le> s_totalQuantity ?s'"
    using s_bounds(1) sum_list_nonneg_int [OF qs] by (simp add: total_s' order_quantity_def)
  then have "list_all (\<lambda>p. 0 \<le> s_totalQuantity (snd p)) (AList.update ?k ?s' ?ens)"
    by (rule nonneg_update [OF nonneg_ens])
  with run total show ?thesis by blast
qed

lemma summarize_total:
  "list_all (\<lambda>order. plain_name (summary_key order)) orders \<Longrightarrow>
   list_all (\<lambda>p. 0 \<le> s_totalQuantity (snd p)) summary \<Longrightarrow>
   list_all (\<lambda>item. 0 \<le> li_qty item) (concat (map o_orders orders)) \<Longrightarrow>
   total_of summary + sum_list (map order_quantity orders) \<le> 9007199254740992 \<Longrightarrow>
   \<exists>summary'. summarize summary orders = Inr summary'
     \<and> total_of summary' = total_of summary + sum_list (map order_quantity orders)"
proof (induction orders arbitrary: summary)
  case Nil
  then show ?case by simp
next
  case (Cons order orders)
  from Cons.prems(1) have plain: "plain_name (summary_key order)"
    and plain_rest: "list_all (\<lambda>order. plain_name (summary_key order)) orders"
    by simp_all
  from Cons.prems(3) have qtys: "list_all (\<lambda>item. 0 \<le> li_qty item) (o_orders order)"
    and qtys_rest: "list_all (\<lambda>item. 0 \<le> li_qty item) (concat (map o_orders orders))"
    by simp_all
  have "list_all (\<lambda>q. 0 \<le> q) (map li_qty (concat (map o_orders orders)))"
    using qtys_rest by (simp add: list_all_iff)
  then have "0 \<le> sum_list (map li_qty (concat (map o_orders orders)))"
    by (rule sum_list_nonneg_int)
  moreover have "sum_list (map order_quantity orders)
      = sum_list (map li_qty (concat (map o_orders orders)))"
    by (induction orders) (simp_all add: order_quantity_def)
  ultimately have rest_nonneg: "0 \<le> sum_list (map order_quantity orders)"
    by simp
  then have bound: "total_of summary + order_quantity order \<le> 9007199254740992"
    using Cons.prems(4) by simp
  obtain mid where mid:
    "add_items (ensure_summary summary order) (summary_key order) (o_orders order) = Inr mid"
    "total_of mid = total_of summary + order_quantity order"
    "list_all (\<lambda>p. 0 \<le> s_totalQuantity (snd p)) mid"
    using step_exact [OF plain Cons.prems(2) qtys bound] by blast
  have "total_of mid + sum_list (map order_quantity orders) \<le> 9007199254740992"
    using Cons.prems(4) mid(2) by simp
  then obtain final where "summarize mid orders = Inr final"
    "total_of final = total_of mid + sum_list (map order_quantity orders)"
    using Cons.IH [OF plain_rest mid(3) qtys_rest] by blast
  then show ?case using mid by simp
qed

lemma sum_object_values:
  "sum_list (map s_totalQuantity (object_values summary)) = total_of summary"
proof -
  have "mset (map (\<lambda>p. s_totalQuantity (snd p)) (object_entries summary))
      = mset (map (\<lambda>p. s_totalQuantity (snd p)) summary)"
    using mset_object_entries [of summary] by (metis mset_map)
  then have "sum_list (map (\<lambda>p. s_totalQuantity (snd p)) (object_entries summary))
      = sum_list (map (\<lambda>p. s_totalQuantity (snd p)) summary)"
    by (metis sum_mset_sum_list)
  then show ?thesis
    by (simp add: object_values_def total_of_def comp_def)
qed

lemma sum_order_quantity:
  "sum_list (map order_quantity orders) = sum_list (map li_qty (concat (map o_orders orders)))"
  by (induction orders) (simp_all add: order_quantity_def)

lemma valid_phones_plain:
  "list_all (\<lambda>order. valid_phone (o_phone order)) orders \<Longrightarrow>
   list_all (\<lambda>order. plain_name (summary_key order)) orders"
  by (simp add: list_all_iff summary_key_plain)

lemma digit_phone_plain:
  assumes "c \<in> set (o_phone order)" and "is_digit c"
  shows "plain_name (summary_key order)"
proof -
  have "\<forall>n\<in>set object_prototype_names. list_all (\<lambda>c. \<not> is_digit c) n"
    by (simp add: object_prototype_names_def is_digit_def)
  moreover have "\<not> list_all (\<lambda>c. \<not> is_digit c) (summary_key order)"
    using assms by (auto simp: summary_key_def list_all_iff)
  ultimately show ?thesis
    unfolding plain_name_def by metis
qed

lemma valid_phones_raj: "list_all (\<lambda>order. valid_phone (o_phone order)) raj_orders"
  by (simp add: raj_orders_def valid_phone_def is_digit_def)

lemma summarize_snoc:
  "summarize summary (orders @ [order]) =
     (case summarize summary orders of
        Inl e \<Rightarrow> Inl e
      | Inr summary' \<Rightarrow>
          add_items (ensure_summary summary' order) (summary_key order) (o_orders order))"
  by (induction orders arbitrary: summary) (simp_all split: sum.splits)

lemma orders_of_key_snoc:
  "orders_of_key k (orders @ [order]) =
     (if summary_key order = k then orders_of_key k orders @ [order] else orders_of_key k orders)"
  by (simp add: orders_of_key_def)

lemma orders_of_key_empty: "orders_of_key k orders = [] \<longleftrightarrow> k \<notin> summary_key ` set orders"
  by (auto simp: orders_of_key_def filter_empty_conv)

lemma summary_of_key_other:
  "summary_key order \<noteq> k \<Longrightarrow> summary_of_key (orders @ [order]) k = summary_of_key orders k"
  by (simp add: summary_of_key_def orders_of_key_snoc)

lemma summary_of_key_seen:
  assumes "summary_key order \<in> summary_key ` set orders"
  shows "summary_of_key (orders @ [order]) (summary_key order)
    = add_order_items (summary_of_key orders (summary_key order)) (o_orders order)"
proof -
  have "orders_of_key (summary_key order) orders \<noteq> []"
    using assms by (simp add: orders_of_key_empty)
  then show ?thesis
    by (simp add: summary_of_key_def orders_of_key_snoc add_order_items_def)
qed

lemma summary_of_key_new:
  assumes "summary_key order \<notin> summary_key ` set orders"
  shows "summary_of_key (orders @ [order]) (summary_key order)
    = add_order_items (new_summary order) (o_orders order)"
proof -
  have "orders_of_key (summary_key order) orders = []"
    using assms by (simp add: orders_of_key_empty)
  then show ?thesis
    by (simp add: summary_of_key_def orders_of_key_snoc add_order_items_def new_summary_def)
qed

lemma summarize_graph:
  "list_all (\<lambda>order. plain_name (summary_key order)) orders \<Longrightarrow>
   summarize [] orders
     = Inr (graph_of (summary_of_key orders) (first_seen (map summary_key orders)))"
proof (induction orders rule: rev_induct)
  case Nil
  then show ?case by (simp add: graph_of_def)
next
  case (snoc order orders)
  let ?k = "summary_key order"
  let ?ks = "first_seen (map summary_key orders)"
  let ?g = "graph_of (summary_of_key orders) ?ks"
  let ?items = "o_orders order"
  from snoc.prems have plain: "plain_name ?k"
    and rest: "list_all (\<lambda>order. plain_name (summary_key order)) orders"
    by simp_all
  have ih: "summarize [] orders = Inr ?g"
    using snoc.IH [OF rest] .
  have step: "summarize [] (orders @ [order]) = add_items (ensure_summary ?g order) ?k ?items"
    by (simp add: summarize_snoc ih)
  have others: "graph_of (summary_of_key orders) ?ks = graph_of (summary_of_key (orders @ [order])) ?ks"
    if "?k \<notin> set ?ks"
  proof (rule graph_of_cong)
    fix k assume "k \<in> set ?ks"
    then have "summary_key order \<noteq> k" using that by auto
    then show "summary_of_key orders k = summary_of_key (orders @ [order]) k"
      by (simp add: summary_of_key_other)
  qed
  show ?case
  proof (cases "?k \<in> summary_key ` set orders")
    case True
    then have mem: "?k \<in> set ?ks" by simp
    have look: "map_of ?g ?k = Some (summary_of_key orders ?k)"
      using mem by (simp add: map_of_graph_of)
    have "ensure_summary ?g order = ?g"
      by (simp add: ensure_summary_plain [OF plain] look)
    then have "summarize [] (orders @ [order])
        = Inr (AList.update ?k (add_order_items (summary_of_key orders ?k) ?items) ?g)"
      using add_items_Own [OF look] by (simp add: step)
    also have "AList.update ?k (add_order_items (summary_of_key orders ?k) ?items) ?g
        = graph_of ((summary_of_key orders)(?k := add_order_items (summary_of_key orders ?k) ?items)) ?ks"
      using mem by (simp add: update_graph_of)
    also have "\<dots> = graph_of (summary_of_key (orders @ [order])) ?ks"
      by (rule graph_of_cong) (auto simp: summary_of_key_seen [OF True] summary_of_key_other)
    finally show ?thesis
      using True by (simp add: first_seen_snoc)
  next
    case False
    then have nomem: "?k \<notin> set ?ks" by simp
    have look: "map_of ?g ?k = None"
      using nomem by (simp add: map_of_graph_of)
    have ens: "ensure_summary ?g order = ?g @ [(?k, new_summary order)]"
      by (simp add: ensure_summary_plain [OF plain] look)
    have "map_of (?g @ [(?k, new_summary order)]) ?k = Some (new_summary order)"
      using look by (simp add: map_add_def)
    then have "add_items (?g @ [(?k, new_summary order)]) ?k ?items
        = Inr (AList.update ?k (add_order_items (new_summary order) ?items)
                 (?g @ [(?k, new_summary order)]))"
      by (rule add_items_Own)
    moreover have "?g @ [(?k, new_summary order)] = AList.update ?k (new_summary order) ?g"
      using nomem by (simp add: update_graph_of)
    ultimately have "summarize [] (orders @ [order])
        = Inr (AList.update ?k (add_order_items (new_summary order) ?items) ?g)"
      by (simp add: step ens)
    also have "AList.update ?k (add_order_items (new_summary order) ?items) ?g
        = ?g @ [(?k, add_order_items (new_summary order) ?items)]"
      using nomem by (simp add: update_graph_of)
    also have "\<dots> = graph_of (summary_of_key (orders @ [order])) (?ks @ [?k])"
      by (simp only: others [OF nomem] graph_of_snoc summary_of_key_new [OF False])
    finally show ?thesis
      using False by (simp add: first_seen_snoc)
  qed
qed

lemma object_values_graph:
  "list_all (\<lambda>k. \<not> is_array_index k) ks \<Longrightarrow> object_values (graph_of f ks) = map f ks"
proof -
  assume "list_all (\<lambda>k. \<not> is_array_index k) ks"
  then have "list_all (\<lambda>k. \<not> is_array_index k) (map fst (graph_of f ks))"
    by (simp add: graph_of_def comp_def)
  then have "object_entries (graph_of f ks) = graph_of f ks"
    by (rule object_entries_plain)
  then show ?thesis
    by (simp add: object_values_def graph_of_def comp_def)
qed

lemma summary_key_eq:
  assumes "valid_phone (o_phone a)" and "valid_phone (o_phone b)"
  shows "summary_key a = summary_key b \<longleftrightarrow> o_name a = o_name b \<and> o_phone a = o_phone b"
proof -
  have "length (o_phone a) = length (o_phone b)"
    using assms by (simp add: valid_phone_def)
  then have "length (''_'' @ o_phone a) = length (''_'' @ o_phone b)"
    by simp
  then have "(o_name a @ (''_'' @ o_phone a) = o_name b @ (''_'' @ o_phone b))
      \<longleftrightarrow> (o_name a = o_name b \<and> ''_'' @ o_phone a = ''_'' @ o_phone b)"
    by (rule append_eq_append_conv [OF disjI2])
  then show ?thesis
    by (simp add: summary_key_def)
qed

lemmas getOrdersSummary_eval =
  getOrdersSummary_def ensure_summary_def get_prop_def object_prototype_names_def
  summary_key_def new_summary_def object_values_def object_entries_def is_array_index_def
  is_digit_def js_add_def round_double_def

section \<open>Facts about the view engine\<close>

lemma row_field_same_kind:
  "is_string (row_field key a) = is_string (row_field key b)
   \<and> (row_field key a = JUndefined \<longleftrightarrow> row_field key b = JUndefined)"
  by (simp add: row_field_def is_string_def)

lemma row_field_kinds:
  "(\<exists>x y. row_field key a = JString x \<and> row_field key b = JString y)
   \<or> (\<exists>x y. row_field key a = JNumber x \<and> row_field key b = JNumber y)
   \<or> (row_field key a = JUndefined \<and> row_field key b = JUndefined)"
  by (simp add: row_field_def)

lemma row_field_cases:
  obtains x y where "row_field key a = JString x" "row_field key b = JString y"
  | x y where "row_field key a = JNumber x" "row_field key b = JNumber y"
  | "row_field key a = JUndefined" "row_field key b = JUndefined"
  using row_field_kinds [of key a b] by blast

lemma compare_rows_values:
  "compare_rows toLowerCase sortConfig a b =
     (if js_less (sort_value toLowerCase sortConfig a) (sort_value toLowerCase sortConfig b)
      then (if sc_direction sortConfig = ''asc'' then - 1 else 1)
      else if js_less (sort_value toLowerCase sortConfig b) (sort_value toLowerCase sortConfig a)
      then (if sc_direction sortConfig = ''asc'' then 1 else - 1)
      else 0)"
  by (rule row_field_cases [of "sc_key sortConfig" a b])
     (simp_all add: compare_rows_def sort_value_def is_string_def lowered_def)

lemma js_less_trichotomy:
  "\<not> js_less (sort_value toLowerCase sortConfig a) (sort_value toLowerCase sortConfig b)
   \<and> \<not> js_less (sort_value toLowerCase sortConfig b) (sort_value toLowerCase sortConfig a)
   \<longleftrightarrow> sort_value toLowerCase sortConfig a = sort_value toLowerCase sortConfig b"
  by (rule row_field_cases [of "sc_key sortConfig" a b])
     (auto simp: sort_value_def js_less_def lowered_def)

lemma compare_rows_zero:
  "compare_rows toLowerCase sortConfig a b = 0 \<longleftrightarrow> sort_value toLowerCase sortConfig a = sort_value toLowerCase sortConfig b"
  using js_less_trichotomy [of toLowerCase sortConfig a b] by (auto simp: compare_rows_values)

lemma js_less_asym: "js_less u v \<Longrightarrow> \<not> js_less v u"
  by (auto simp: js_less_def split: js_value.splits)

lemma compare_rows_le:
  "compare_rows toLowerCase sortConfig a b \<le> 0 \<longleftrightarrow>
     (if sc_direction sortConfig = ''asc''
      then \<not> js_less (sort_value toLowerCase sortConfig b) (sort_value toLowerCase sortConfig a)
      else \<not> js_less (sort_value toLowerCase sortConfig a) (sort_value toLowerCase sortConfig b))"
  using js_less_asym by (auto simp: compare_rows_values)

lemma compare_rows_total: "compare_rows toLowerCase sortConfig a b \<le> 0 \<or> compare_rows toLowerCase sortConfig b a \<le> 0"
  using js_less_asym by (auto simp: compare_rows_le)

lemma not_js_less_trans:
  assumes "\<not> js_less (sort_value toLowerCase sortConfig b) (sort_value toLowerCase sortConfig a)"
    and "\<not> js_less (sort_value toLowerCase sortConfig c) (sort_value toLowerCase sortConfig b)"
  shows "\<not> js_less (sort_value toLowerCase sortConfig c) (sort_value toLowerCase sortConfig a)"
proof (rule row_field_cases [of "sc_key sortConfig" a b])
  fix x y assume ab: "row_field (sc_key sortConfig) a = JString x" "row_field (sc_key sortConfig) b = JString y"
  then obtain z where c: "row_field (sc_key sortConfig) c = JString z"
    using row_field_same_kind [of "sc_key sortConfig" b c]
    by (cases "row_field (sc_key sortConfig) c") (simp_all add: is_string_def)
  show ?thesis using assms ab c by (simp add: sort_value_def lowered_def js_less_def)
next
  fix x y assume ab: "row_field (sc_key sortConfig) a = JNumber x" "row_field (sc_key sortConfig) b = JNumber y"
  show ?thesis using assms ab
    by (cases "row_field (sc_key sortConfig) c") (simp_all add: sort_value_def lowered_def js_less_def)
next
  assume "row_field (sc_key sortConfig) a = JUndefined" "row_field (sc_key sortConfig) b = JUndefined"
  then show ?thesis
    by (simp add: sort_value_def lowered_def js_less_def split: js_value.splits)
qed

lemma compare_rows_trans:
  assumes "compare_rows toLowerCase sortConfig a b \<le> 0" and "compare_rows toLowerCase sortConfig b c \<le> 0"
  shows "compare_rows toLowerCase sortConfig a c \<le> 0"
proof (cases "sc_direction sortConfig = ''asc''")
  case True
  with assms have "\<not> js_less (sort_value toLowerCase sortConfig b) (sort_value toLowerCase sortConfig a)"
    and "\<not> js_less (sort_value toLowerCase sortConfig c) (sort_value toLowerCase sortConfig b)"
    by (simp_all add: compare_rows_le)
  then have "\<not> js_less (sort_value toLowerCase sortConfig c) (sort_value toLowerCase sortConfig a)"
    by (rule not_js_less_trans)
  with True show ?thesis by (simp add: compare_rows_le)
next
  case False
  with assms have "\<not> js_less (sort_value toLowerCase sortConfig b) (sort_value toLowerCase sortConfig c)"
    and "\<not> js_less (sort_value toLowerCase sortConfig a) (sort_value toLowerCase sortConfig b)"
    by (simp_all add: compare_rows_le)
  then have "\<not> js_less (sort_value toLowerCase sortConfig a) (sort_value toLowerCase sortConfig c)"
    by (rule not_js_less_trans)
  with False show ?thesis by (simp add: compare_rows_le)
qed

lemma filteredAndSortedOrders_value:
  assumes "flat < length h" and "filteredAndSortedOrders toLowerCase h flat filters sortConfig = (r, h')"
  shows "r < length h' \<and> h' ! r = sorted_rows toLowerCase sortConfig (filtered_rows toLowerCase filters (h ! flat))"
  using assms
  by (auto simp: filteredAndSortedOrders_def alloc_def filtered_rows_def sorted_rows_def Let_def
      nth_append split: if_splits)

lemmas view_eval =
  filteredAndSortedOrders_def alloc_def array_sort_def compare_rows_def row_field_def
  sample_row_def is_string_def lowered_def js_less_def ascii_toLowerCase_def lower_char_def
  matches_search_def filtered_rows_def sorted_rows_def name_asc_def sample_rows_def

lemma compare_rows_strings:
  assumes "row_field (sc_key sortConfig) a = JString x"
    and "row_field (sc_key sortConfig) b = JString y"
  shows "(compare_rows toLowerCase sortConfig a b < 0 \<longleftrightarrow>
           (if sc_direction sortConfig = ''asc'' then toLowerCase x < toLowerCase y
            else toLowerCase y < toLowerCase x))
    \<and> (compare_rows toLowerCase sortConfig a b = 0 \<longleftrightarrow> toLowerCase x = toLowerCase y)"
  using assms by (auto simp: compare_rows_def is_string_def lowered_def js_less_def)

section \<open>Row ids\<close>

text \<open>
  C2. The claim is that no two rows of the flattener's output share an id, also when a
  record repeats an item name. The id is built from the order id and the item name only:
  one record that lists the item Shirt twice gives two rows, and both have the id
  \<open>1-Shirt\<close>, so the ids of the output are not distinct.
\<close>

theorem flattenedOrders_repeated_item_ids:
  "map r_id (flattenedOrders [repeated_item_order]) = [''1-Shirt'', ''1-Shirt'']
   \<and> \<not> distinct (map r_id (flattenedOrders [repeated_item_order]))"
  by (simp add: flattenedOrders_def flatten_item_def repeated_item_order_def
      string_of_nat.simps digit_char_def)

section \<open>Bucket keys\<close>

text \<open>
  C4. The claim is that the bucket key of a 12-hour time is the unpadded hour followed by
  the designator, so that \<open>02:00 PM\<close> falls in \<open>2PM\<close>. The program
  takes the text before the first colon as it is written: \<open>02:00 PM\<close> falls in
  \<open>02PM\<close>. What holds instead: for a record whose time is written as hour
  digits, a colon, minute digits, a space and \<open>AM\<close> or \<open>PM\<close>, the
  bucket key is the hour digits exactly as written (a leading zero is kept) followed by
  the designator, and the output has the bucket of that key, which counts the records of
  that key.
\<close>

theorem getOrdersOverTime_key_as_written:
  assumes "order \<in> set orders"
    and "o_time order = hh @ '':'' @ mm @ '' '' @ d"
    and "list_all is_digit hh" and "list_all is_digit mm"
    and "d = ''AM'' \<or> d = ''PM''"
  shows "time_key (o_time order) = hh @ d
    \<and> \<lparr>tb_time = hh @ d,
        tb_orders = int (length (filter (\<lambda>r. time_key (o_time r) = hh @ d) orders))\<rparr>
      \<in> set (getOrdersOverTime orders)"
proof -
  have key: "time_key (o_time order) = hh @ d"
    using assms(2) time_key_clock [OF assms(3,4,5)] by simp
  then have "hh @ d \<in> (\<lambda>order. time_key (o_time order)) ` set orders"
    using assms(1) by force
  then show ?thesis
    using key by (simp add: set_getOrdersOverTime)
qed

theorem getOrdersOverTime_key_as_written_witness:
  "time_key (o_time (order_at ''02:00 PM'')) = ''02PM''
   \<and> \<lparr>tb_time = ''02PM'', tb_orders = 1\<rparr> \<in> set (getOrdersOverTime [order_at ''02:00 PM''])"
  using getOrdersOverTime_key_as_written
    [of "order_at ''02:00 PM''" "[order_at ''02:00 PM'']" "''02''" "''00''" "''PM''"]
  by (simp add: order_at_def is_digit_def time_key_def)

theorem getOrdersOverTime_padded_hour:
  "getOrdersOverTime [order_at ''02:00 PM''] = [\<lparr>tb_time = ''02PM'', tb_orders = 1\<rparr>]"
  by code_simp

section \<open>Order of the time series\<close>

text \<open>
  C5. The claim is that the series is sorted by the hour of the day with 12AM as hour 0,
  so that a 12AM bucket precedes every other bucket. \<^verbatim>\<open>getHour\<close>
  adds 12 to the hours of the afternoon other than 12 and leaves every other hour as it
  is, so 12AM is ranked as hour 12: with one record at 12:30 AM and one at 01:00 AM the
  series lists the bucket of 1 AM before the bucket of 12 AM.
\<close>

theorem getOrdersOverTime_midnight_after_one:
  "getOrdersOverTime [order_at ''12:30 AM'', order_at ''01:00 AM'']
     = [\<lparr>tb_time = ''01AM'', tb_orders = 1\<rparr>, \<lparr>tb_time = ''12AM'', tb_orders = 1\<rparr>]
   \<and> getHour ''12AM'' = Some 12 \<and> getHour ''01AM'' = Some 1"
  by code_simp

section \<open>Malformed times\<close>

text \<open>
  C6. The claim is that a record whose time has no designator or an hour outside 1 to 12
  makes \<^verbatim>\<open>getOrdersOverTime\<close> fail. The function has no failure: it
  returns a series for every input, and the time \<open>14:30\<close> is counted in a bucket
  \<open>14AM\<close>. What holds instead: every record, whatever its time text, is counted exactly
  once, in the bucket whose key is the text before the first colon followed by \<open>PM\<close>
  when the text contains \<open>PM\<close> and by \<open>AM\<close> otherwise. The series consists of
  exactly one bucket for each distinct key of the input, whose count is the number of
  records with that key, and the counts add up to the number of records.
\<close>

theorem getOrdersOverTime_counts_every_record:
  "mset (getOrdersOverTime orders)
     = mset (map (\<lambda>key. \<lparr>tb_time = key,
                          tb_orders = int (length (filter (\<lambda>r. time_key (o_time r) = key) orders))\<rparr>)
               (first_seen (map (\<lambda>r. time_key (o_time r)) orders)))
   \<and> sum_list (map tb_orders (getOrdersOverTime orders)) = int (length orders)
   \<and> time_key t
     = takeWhile (\<lambda>c. c \<noteq> CHR '':'') t @ (if includes_str t ''PM'' then ''PM'' else ''AM'')"
proof (intro conjI)
  have "mset (getOrdersOverTime orders)
      = mset (map (\<lambda>(time, count). \<lparr>tb_time = time, tb_orders = count\<rparr>) (time_data orders))"
    by (simp add: getOrdersOverTime_def mset_array_sort object_entries_time_data)
  also have "map (\<lambda>(time, count). \<lparr>tb_time = time, tb_orders = count\<rparr>) (time_data orders)
      = map (\<lambda>key. \<lparr>tb_time = key,
                      tb_orders = int (length (filter (\<lambda>r. time_key (o_time r) = key) orders))\<rparr>)
          (first_seen (map (\<lambda>r. time_key (o_time r)) orders))"
    by (simp add: time_data_graph graph_of_def weight_of_time_tally)
  finally show "mset (getOrdersOverTime orders)
     = mset (map (\<lambda>key. \<lparr>tb_time = key,
                          tb_orders = int (length (filter (\<lambda>r. time_key (o_time r) = key) orders))\<rparr>)
               (first_seen (map (\<lambda>r. time_key (o_time r)) orders)))" .
next
  show "sum_list (map tb_orders (getOrdersOverTime orders)) = int (length orders)"
    by (rule sum_getOrdersOverTime)
next
  show "time_key t
     = takeWhile (\<lambda>c. c \<noteq> CHR '':'') t @ (if includes_str t ''PM'' then ''PM'' else ''AM'')"
    by (simp add: time_key_def)
qed

theorem getOrdersOverTime_counts_every_record_witness:
  "mset (getOrdersOverTime [order_at ''14:30'', order_at ''9 o clock'', order_at ''14:45''])
     = mset [\<lparr>tb_time = ''14AM'', tb_orders = 2\<rparr>, \<lparr>tb_time = ''9 o clockAM'', tb_orders = 1\<rparr>]
   \<and> sum_list (map tb_orders
         (getOrdersOverTime [order_at ''14:30'', order_at ''9 o clock'', order_at ''14:45''])) = 3"
  using getOrdersOverTime_counts_every_record
    [of "[order_at ''14:30'', order_at ''9 o clock'', order_at ''14:45'']"]
  by (simp add: order_at_def time_key_def)

theorem getOrdersOverTime_no_designator:
  "getOrdersOverTime [order_at ''14:30''] = [\<lparr>tb_time = ''14AM'', tb_orders = 1\<rparr>]"
  by code_simp

section \<open>Truncation of the item ranking\<close>

text \<open>
  C7. The claim is that \<^verbatim>\<open>getTopItems\<close> returns the empty sequence
  for every limit that is zero or negative, and all distinct items for a limit above their
  number. The limit goes to \<^verbatim>\<open>slice(0, limit)\<close> as it is, and a
  negative end counts from the end of the array: on the three items of the example the
  limit \<open>-1\<close> returns two entries. What holds instead, for item names that
  \<^verbatim>\<open>Object.prototype\<close> does not define: the limit 0 gives the empty
  sequence; a negative limit \<open>-k\<close> gives the full ranking without its last
  \<open>k\<close> entries; a limit of at least the number of distinct item names gives
  every distinct item once, with its total quantity.
\<close>

theorem getTopItems_limit:
  assumes "list_all plain_name (item_names orders)"
  shows "getTopItems orders (Some 0) = []
    \<and> (l < 0 \<longrightarrow>
         getTopItems orders (Some l) =
           take (length (first_seen (item_names orders)) - nat (- l))
             (getTopItems orders (Some (int (length (first_seen (item_names orders)))))))
    \<and> (int (length (first_seen (item_names orders))) \<le> m \<longrightarrow>
         mset (getTopItems orders (Some m)) =
           mset (map (\<lambda>item. \<lparr>ic_item = item, ic_count = item_total orders item\<rparr>)
                  (first_seen (item_names orders))))"
proof (intro conjI impI)
  let ?n = "length (first_seen (item_names orders))"
  let ?mk = "\<lambda>(item, count). \<lparr>ic_item = item, ic_count = count\<rparr>"
  let ?ranking = "array_sort by_count (object_entries (item_counts orders))"
  have len: "length (item_counts orders) = ?n"
    by (rule length_item_counts [OF assms])
  have len_ranking: "length ?ranking = ?n"
    using mset_ranking [OF assms] by (metis length_map size_mset)
  show "getTopItems orders (Some 0) = []"
    by (simp add: getTopItems_take slice_index_def)
  have full: "getTopItems orders (Some (int ?n)) = map ?mk ?ranking"
    by (simp add: getTopItems_take len slice_index_def len_ranking)
  show "getTopItems orders (Some l) = take (?n - nat (- l)) (getTopItems orders (Some (int ?n)))"
    if "l < 0"
  proof -
    have "slice_index ?n l = ?n - nat (- l)"
      using that by (simp add: slice_index_def)
    then have "getTopItems orders (Some l) = map ?mk (take (?n - nat (- l)) ?ranking)"
      by (simp add: getTopItems_take len)
    then show ?thesis
      by (simp only: full take_map)
  qed
  show "mset (getTopItems orders (Some m)) =
      mset (map (\<lambda>item. \<lparr>ic_item = item, ic_count = item_total orders item\<rparr>)
             (first_seen (item_names orders)))"
    if "int ?n \<le> m"
  proof -
    have "slice_index ?n m = ?n"
      using that by (simp add: slice_index_def)
    then have "getTopItems orders (Some m) = map ?mk ?ranking"
      by (simp add: getTopItems_take len len_ranking)
    then have "mset (getTopItems orders (Some m))
        = mset (map ?mk (map (item_entry orders) (first_seen (item_names orders))))"
      using mset_ranking [OF assms] by (metis mset_map)
    then show ?thesis
      by (simp add: item_entry_def comp_def)
  qed
qed

theorem getTopItems_limit_witness:
  "getTopItems raj_orders (Some 0) = []
   \<and> getTopItems raj_orders (Some (- 1)) = take 2 (getTopItems raj_orders (Some 3))
   \<and> mset (getTopItems raj_orders (Some 7)) =
       mset [\<lparr>ic_item = ''Shirt'', ic_count = 12\<rparr>, \<lparr>ic_item = ''Jeans'', ic_count = 5\<rparr>,
             \<lparr>ic_item = ''Saree'', ic_count = 3\<rparr>]"
proof -
  have totals: "item_total raj_orders ''Shirt'' = 12" "item_total raj_orders ''Jeans'' = 5"
    "item_total raj_orders ''Saree'' = 3"
    by (simp_all add: item_total_def raj_orders_def js_add_def round_double_def)
  show ?thesis
    using getTopItems_limit [OF plain_raj, of "- 1" 7]
    by (simp add: first_seen_raj totals numeral_2_eq_2)
qed

theorem getTopItems_negative_limit:
  "getTopItems raj_orders (Some (- 1)) =
     [\<lparr>ic_item = ''Shirt'', ic_count = 12\<rparr>, \<lparr>ic_item = ''Jeans'', ic_count = 5\<rparr>]"
  by code_simp

section \<open>Order of the item ranking\<close>

text \<open>
  C8. The claim is that the ranking is in descending order of accumulated quantity and
  that, among items of equal quantity, the one whose name was seen first in the input
  comes first. The counts are the properties of a plain object, and
  \<^verbatim>\<open>Object.entries\<close> lists the properties named by an array index
  first, in numeric order: with the items \<open>2\<close> and \<open>1\<close> of
  quantity 1 each, in this order, the ranking lists \<open>1\<close> before
  \<open>2\<close>. What holds instead, when no item name is an array index (and none is
  defined by \<^verbatim>\<open>Object.prototype\<close>): for every limit the result is
  in descending order of count, the count of an entry is the total quantity of its item
  over all records, and of two entries with equal counts the one that comes first in the
  result is the one whose name is first seen earlier.
\<close>

theorem getTopItems_order:
  assumes "list_all plain_name (item_names orders)"
    and "list_all (\<lambda>item. \<not> is_array_index item) (item_names orders)"
  shows "sorted_wrt (\<lambda>a b. ic_count b \<le> ic_count a) (getTopItems orders limit)
    \<and> (\<forall>r\<in>set (getTopItems orders limit). ic_count r = item_total orders (ic_item r))
    \<and> (\<forall>a b. subseq [a, b] (getTopItems orders limit) \<and> ic_count a = ic_count b
          \<longrightarrow> subseq [ic_item a, ic_item b] (first_seen (item_names orders)))"
proof -
  let ?names = "first_seen (item_names orders)"
  let ?es = "map (item_entry orders) ?names"
  let ?mk = "\<lambda>(item, count). \<lparr>ic_item = item, ic_count = count\<rparr>"
  let ?unmk = "\<lambda>r. (ic_item r, ic_count r)"
  obtain n where res: "getTopItems orders limit = map ?mk (take n (array_sort by_count ?es))"
  proof -
    have "list_all (\<lambda>k. \<not> is_array_index k) (map fst ?es)"
      using assms(2) by (simp add: list_all_iff item_entry_def)
    then have "object_entries ?es = ?es"
      by (rule object_entries_plain)
    then have "getTopItems orders limit =
        map ?mk (take (slice_index (length ?es) (case limit of None \<Rightarrow> 10 | Some l \<Rightarrow> l))
          (array_sort by_count ?es))"
      by (simp add: getTopItems_take item_counts_graph [OF assms(1)])
    then show ?thesis using that by blast
  qed
  let ?top = "take n (array_sort by_count ?es)"
  have unmk: "map ?unmk (getTopItems orders limit) = ?top"
    by (simp add: res comp_def case_prod_unfold)
  have sub: "subseq ?top (array_sort by_count ?es)"
    by (rule subseq_take_left)
  have "sorted_wrt (\<lambda>a b. snd b \<le> snd a) ?top"
    using sorted_ranking [of ?es] by (rule sorted_wrt_take)
  then have sorted: "sorted_wrt (\<lambda>a b. ic_count b \<le> ic_count a) (getTopItems orders limit)"
    by (simp add: res sorted_wrt_map case_prod_unfold)
  have counts: "ic_count r = item_total orders (ic_item r)" if "r \<in> set (getTopItems orders limit)" for r
  proof -
    from that obtain e where "e \<in> set ?top" and r: "r = ?mk e"
      by (auto simp: res)
    then have "e \<in> set ?es"
      using set_take_subset [of n "array_sort by_count ?es"] by (auto simp: set_array_sort)
    then show ?thesis by (auto simp: r item_entry_def)
  qed
  have ties: "subseq [ic_item a, ic_item b] ?names"
    if ab: "subseq [a, b] (getTopItems orders limit)" and eq: "ic_count a = ic_count b" for a b
  proof -
    have "subseq (map ?unmk [a, b]) (map ?unmk (getTopItems orders limit))"
      using ab by (rule subseq_map)
    then have "subseq [?unmk a, ?unmk b] ?top"
      unfolding unmk by simp
    then have "subseq [?unmk a, ?unmk b] (array_sort by_count ?es)"
      using sub by (rule subseq_order.trans)
    then have "subseq [?unmk a, ?unmk b] ?es"
      by (rule pair_order_ranking) (simp add: eq)
    then have "subseq (map fst [?unmk a, ?unmk b]) (map fst ?es)"
      by (rule subseq_map)
    then show ?thesis
      by (simp add: comp_def item_entry_def)
  qed
  show ?thesis
    using sorted counts ties by blast
qed

theorem getTopItems_order_witness:
  "getTopItems [tied_order] None =
     [\<lparr>ic_item = ''Saree'', ic_count = 5\<rparr>, \<lparr>ic_item = ''Shirt'', ic_count = 2\<rparr>,
      \<lparr>ic_item = ''Kurti'', ic_count = 2\<rparr>]
   \<and> sorted_wrt (\<lambda>a b. ic_count b \<le> ic_count a) (getTopItems [tied_order] None)
   \<and> subseq [''Shirt'', ''Kurti''] (first_seen (item_names [tied_order]))"
proof -
  have plain: "list_all plain_name (item_names [tied_order])"
    by (simp add: item_names_def tied_order_def plain_name_def object_prototype_names_def)
  have noidx: "list_all (\<lambda>item. \<not> is_array_index item) (item_names [tied_order])"
    by (simp add: item_names_def tied_order_def is_array_index_def is_digit_def)
  have res: "getTopItems [tied_order] None =
     [\<lparr>ic_item = ''Saree'', ic_count = 5\<rparr>, \<lparr>ic_item = ''Shirt'', ic_count = 2\<rparr>,
      \<lparr>ic_item = ''Kurti'', ic_count = 2\<rparr>]"
    by (simp add: getTopItems_eval tied_order_def)
  have pair: "subseq [\<lparr>ic_item = ''Shirt'', ic_count = 2\<rparr>, \<lparr>ic_item = ''Kurti'', ic_count = 2\<rparr>]
      (getTopItems [tied_order] None)"
    by (simp add: res)
  note order = getTopItems_order [OF plain noidx, of None]
  from order have "sorted_wrt (\<lambda>a b. ic_count b \<le> ic_count a) (getTopItems [tied_order] None)"
    by (rule conjunct1)
  moreover from order pair have "subseq [''Shirt'', ''Kurti''] (first_seen (item_names [tied_order]))"
    by fastforce
  ultimately show ?thesis using res by simp
qed

theorem getTopItems_numbered_items:
  "getTopItems [numbered_order] None =
     [\<lparr>ic_item = ''1'', ic_count = 1\<rparr>, \<lparr>ic_item = ''2'', ic_count = 1\<rparr>]"
  by (simp add: getTopItems_eval numbered_order_def)

section \<open>Grouping of the customer summaries\<close>

text \<open>
  C1. The claim is that \<^verbatim>\<open>getOrdersSummary\<close> groups by phone alone,
  so that the three records of the example (two of them with the phone 9999999999 under
  the names Raj and Raj Kumar) give two summaries, the one of 9999999999 with the name Raj
  and the total 17. The program groups by the key
  \<^verbatim>\<open>`${order.name}_${order.phone}`\<close>: the example gives three
  summaries, Raj with 15, Raj Kumar with 2 and Priya with 3. What holds instead, for
  records whose phones are ten digits: there is exactly one summary per distinct key, in
  the order in which the keys are first seen; the summary of a key has the name and phone
  of the first record of that key and accumulates the items and quantities of all records
  of that key; and two records have the same key exactly when both their names and their
  phones are equal.
\<close>

theorem getOrdersSummary_groups:
  assumes "list_all (\<lambda>order. valid_phone (o_phone order)) orders"
  shows "getOrdersSummary orders
      = Inr (map (summary_of_key orders) (first_seen (map summary_key orders)))
    \<and> (\<forall>a\<in>set orders. \<forall>b\<in>set orders.
          summary_key a = summary_key b \<longleftrightarrow> o_name a = o_name b \<and> o_phone a = o_phone b)"
proof
  have "summarize [] orders
      = Inr (graph_of (summary_of_key orders) (first_seen (map summary_key orders)))"
    using valid_phones_plain [OF assms] by (rule summarize_graph)
  moreover have "list_all (\<lambda>k. \<not> is_array_index k) (first_seen (map summary_key orders))"
    by (auto simp: list_all_iff summary_key_not_index)
  ultimately show "getOrdersSummary orders
      = Inr (map (summary_of_key orders) (first_seen (map summary_key orders)))"
    by (simp add: getOrdersSummary_def object_values_graph)
next
  show "\<forall>a\<in>set orders. \<forall>b\<in>set orders.
      summary_key a = summary_key b \<longleftrightarrow> o_name a = o_name b \<and> o_phone a = o_phone b"
    using assms by (auto simp: list_all_iff summary_key_eq)
qed

theorem getOrdersSummary_groups_witness:
  "getOrdersSummary raj_orders
     = Inr (map (summary_of_key raj_orders)
              [''Raj_9999999999'', ''Raj Kumar_9999999999'', ''Priya_8888888888''])
   \<and> summary_of_key raj_orders ''Raj_9999999999''
     = \<lparr>s_name = ''Raj'', s_phone = ''9999999999'',
        s_items = [\<lparr>li_item = ''Shirt'', li_qty = 10\<rparr>, \<lparr>li_item = ''Jeans'', li_qty = 5\<rparr>],
        s_totalQuantity = 15\<rparr>"
proof -
  have keys: "first_seen (map summary_key raj_orders)
      = [''Raj_9999999999'', ''Raj Kumar_9999999999'', ''Priya_8888888888'']"
    by (simp add: raj_orders_def summary_key_def)
  have raj: "summary_of_key raj_orders ''Raj_9999999999''
     = \<lparr>s_name = ''Raj'', s_phone = ''9999999999'',
        s_items = [\<lparr>li_item = ''Shirt'', li_qty = 10\<rparr>, \<lparr>li_item = ''Jeans'', li_qty = 5\<rparr>],
        s_totalQuantity = 15\<rparr>"
    by (simp add: summary_of_key_def orders_of_key_def raj_orders_def summary_key_def
        js_add_def round_double_def)
  show ?thesis
    using getOrdersSummary_groups [OF valid_phones_raj] by (simp only: keys raj simp_thms)
qed

theorem getOrdersSummary_splits_same_phone:
  "getOrdersSummary raj_orders =
     Inr [\<lparr>s_name = ''Raj'', s_phone = ''9999999999'',
           s_items = [\<lparr>li_item = ''Shirt'', li_qty = 10\<rparr>, \<lparr>li_item = ''Jeans'', li_qty = 5\<rparr>],
           s_totalQuantity = 15\<rparr>,
          \<lparr>s_name = ''Raj Kumar'', s_phone = ''9999999999'',
           s_items = [\<lparr>li_item = ''Shirt'', li_qty = 2\<rparr>], s_totalQuantity = 2\<rparr>,
          \<lparr>s_name = ''Priya'', s_phone = ''8888888888'',
           s_items = [\<lparr>li_item = ''Saree'', li_qty = 3\<rparr>], s_totalQuantity = 3\<rparr>]"
  by (simp add: getOrdersSummary_eval raj_orders_def)

section \<open>Sum of the summaries\<close>

text \<open>
  C3. The claim is that, for every input, the \<^verbatim>\<open>totalQuantity\<close> values of
  the summaries add up to the sum of all line-item quantities. The totals are JavaScript
  numbers: one record with the quantities \<open>2^53\<close>, 1 and 1 gets the total \<open>2^53\<close>,
  because \<open>2^53 + 1\<close> is rounded back to \<open>2^53\<close> twice, while the quantities add up
  to \<open>2^53 + 2\<close>. What holds instead: when no record's key
  \<^verbatim>\<open>`${name}_${phone}`\<close> is the name of a member of
  \<^verbatim>\<open>Object.prototype\<close> (which is so whenever every phone contains a digit),
  no quantity is negative and the quantities of all records add up to at most \<open>2^53\<close>,
  \<^verbatim>\<open>getOrdersSummary\<close> returns summaries and their totals add up to the sum
  of all line-item quantities.
\<close>

theorem getOrdersSummary_sum:
  assumes "list_all (\<lambda>order. plain_name (summary_key order)) orders"
    and "list_all (\<lambda>item. 0 \<le> li_qty item) (concat (map o_orders orders))"
    and "sum_list (map li_qty (concat (map o_orders orders))) \<le> 9007199254740992"
  shows "\<exists>summaries. getOrdersSummary orders = Inr summaries
    \<and> sum_list (map s_totalQuantity summaries)
        = sum_list (map li_qty (concat (map o_orders orders)))"
proof -
  have start: "list_all (\<lambda>p. 0 \<le> s_totalQuantity (snd p)) ([] :: customer_summary js_object)"
    by simp
  have "total_of [] + sum_list (map order_quantity orders) \<le> 9007199254740992"
    using assms(3) by (simp add: total_of_def sum_order_quantity)
  then obtain summary where run: "summarize [] orders = Inr summary"
    and total: "total_of summary = total_of [] + sum_list (map order_quantity orders)"
    using summarize_total [OF assms(1) start assms(2)] by blast
  have "getOrdersSummary orders = Inr (object_values summary)"
    by (simp add: getOrdersSummary_def run)
  moreover have "sum_list (map s_totalQuantity (object_values summary))
      = sum_list (map li_qty (concat (map o_orders orders)))"
    using total by (simp add: sum_object_values total_of_def sum_order_quantity)
  ultimately show ?thesis by blast
qed

theorem getOrdersSummary_sum_witness:
  "\<exists>summaries. getOrdersSummary [hyphen_order] = Inr summaries
     \<and> sum_list (map s_totalQuantity summaries) = 17"
proof -
  have digit: "CHR ''9'' \<in> set (o_phone hyphen_order)" "is_digit CHR ''9''"
    by (simp_all add: hyphen_order_def is_digit_def)
  have plain: "list_all (\<lambda>order. plain_name (summary_key order)) [hyphen_order]"
    using digit_phone_plain [OF digit] by simp
  have nonneg: "list_all (\<lambda>item. 0 \<le> li_qty item) (concat (map o_orders [hyphen_order]))"
    by (simp add: hyphen_order_def)
  have small: "sum_list (map li_qty (concat (map o_orders [hyphen_order]))) \<le> 9007199254740992"
    by (simp add: hyphen_order_def)
  show ?thesis
    using getOrdersSummary_sum [OF plain nonneg small] by (simp add: hyphen_order_def)
qed

theorem getOrdersSummary_rounds_large_total:
  "getOrdersSummary [large_order] =
     Inr [\<lparr>s_name = ''Raj'', s_phone = ''9999999999'',
           s_items = [\<lparr>li_item = ''Shirt'', li_qty = 9007199254740992\<rparr>,
                      \<lparr>li_item = ''Jeans'', li_qty = 1\<rparr>, \<lparr>li_item = ''Saree'', li_qty = 1\<rparr>],
           s_totalQuantity = 9007199254740992\<rparr>]
   \<and> sum_list (map li_qty (concat (map o_orders [large_order]))) = 9007199254740994"
  by (simp add: getOrdersSummary_eval large_order_def bit_length.simps)

section \<open>Sorting in the view engine\<close>

text \<open>
  C9. The sort of the view engine compares string fields after lowercasing both values,
  and it is stable: for every lowercasing function \<open>toLowerCase\<close> (the built-in of
  the engine is one), store, row array, filters, sort key and direction, the comparator on
  two string fields is decided by the lowercased texts (smaller first when ascending,
  greater first otherwise, equal exactly when the lowercased texts are equal); the rows
  that compare equal to any given row stand in the result in the same relative order as in
  the filtered input; the result is a rearrangement of the filtered input, and it is in
  the order of the comparator whenever a sort key is set.
\<close>

theorem view_sort_stable:
  assumes "flat < length h"
    and "filteredAndSortedOrders toLowerCase h flat filters sortConfig = (r, h')"
  shows "(\<forall>a b x y. row_field (sc_key sortConfig) a = JString x
             \<and> row_field (sc_key sortConfig) b = JString y \<longrightarrow>
           (compare_rows toLowerCase sortConfig a b < 0 \<longleftrightarrow>
              (if sc_direction sortConfig = ''asc'' then toLowerCase x < toLowerCase y
               else toLowerCase y < toLowerCase x))
           \<and> (compare_rows toLowerCase sortConfig a b = 0 \<longleftrightarrow> toLowerCase x = toLowerCase y))
    \<and> (\<forall>k. filter (\<lambda>row. compare_rows toLowerCase sortConfig row k = 0) (h' ! r)
            = filter (\<lambda>row. compare_rows toLowerCase sortConfig row k = 0) (filtered_rows toLowerCase filters (h ! flat)))
    \<and> mset (h' ! r) = mset (filtered_rows toLowerCase filters (h ! flat))
    \<and> (sc_key sortConfig \<noteq> [] \<longrightarrow> sorted_wrt (\<lambda>a b. compare_rows toLowerCase sortConfig a b \<le> 0) (h' ! r))"
proof -
  let ?input = "filtered_rows toLowerCase filters (h ! flat)"
  have result: "h' ! r = sorted_rows toLowerCase sortConfig ?input"
    using filteredAndSortedOrders_value [OF assms] by simp
  have stable: "filter (\<lambda>row. compare_rows toLowerCase sortConfig row k = 0) (h' ! r)
      = filter (\<lambda>row. compare_rows toLowerCase sortConfig row k = 0) ?input" for k
  proof (cases "sc_key sortConfig \<noteq> []")
    case True
    have "filter (\<lambda>row. compare_rows toLowerCase sortConfig row k = 0) (array_sort (compare_rows toLowerCase sortConfig) ?input)
        = filter (\<lambda>row. compare_rows toLowerCase sortConfig row k = 0) ?input"
    proof (rule filter_array_sort)
      fix a b
      assume "compare_rows toLowerCase sortConfig a k = 0" and "compare_rows toLowerCase sortConfig b k = 0"
      then have "sort_value toLowerCase sortConfig a = sort_value toLowerCase sortConfig b"
        by (simp add: compare_rows_zero)
      then have "compare_rows toLowerCase sortConfig a b = 0"
        by (simp add: compare_rows_zero)
      then show "compare_rows toLowerCase sortConfig a b \<le> 0" by simp
    qed
    with True show ?thesis by (simp add: result sorted_rows_def)
  next
    case False
    then show ?thesis by (simp add: result sorted_rows_def)
  qed
  have perm: "mset (h' ! r) = mset ?input"
    by (simp add: result sorted_rows_def mset_array_sort)
  have sorted: "sorted_wrt (\<lambda>a b. compare_rows toLowerCase sortConfig a b \<le> 0) (h' ! r)"
    if "sc_key sortConfig \<noteq> []"
  proof -
    have "sorted_wrt (\<lambda>a b. compare_rows toLowerCase sortConfig a b \<le> 0)
        (array_sort (compare_rows toLowerCase sortConfig) ?input)"
      by (rule sorted_wrt_array_sort) (rule compare_rows_total, rule compare_rows_trans)
    with that show ?thesis by (simp add: result sorted_rows_def)
  qed
  show ?thesis
    using compare_rows_strings stable perm sorted by blast
qed

theorem view_sort_stable_witness:
  "filteredAndSortedOrders ascii_toLowerCase [sample_rows] 0 \<lparr>f_search = '''', f_itemType = ''''\<rparr> name_asc
     = (0, [[sample_row ''Alice'' ''Saree'', sample_row ''bob'' ''Shirt'', sample_row ''BOB'' ''Jeans'']])
   \<and> filter (\<lambda>row. compare_rows ascii_toLowerCase name_asc row (sample_row ''Bob'' ''Kurti'') = 0)
        [sample_row ''Alice'' ''Saree'', sample_row ''bob'' ''Shirt'', sample_row ''BOB'' ''Jeans'']
     = filter (\<lambda>row. compare_rows ascii_toLowerCase name_asc row (sample_row ''Bob'' ''Kurti'') = 0) sample_rows"
proof -
  have run: "filteredAndSortedOrders ascii_toLowerCase [sample_rows] 0 \<lparr>f_search = '''', f_itemType = ''''\<rparr> name_asc
     = (0, [[sample_row ''Alice'' ''Saree'', sample_row ''bob'' ''Shirt'', sample_row ''BOB'' ''Jeans'']])"
    by (simp add: view_eval)
  have input: "filtered_rows ascii_toLowerCase \<lparr>f_search = '''', f_itemType = ''''\<rparr> ([sample_rows] ! 0) = sample_rows"
    by (simp add: filtered_rows_def)
  have "0 < length [sample_rows]" by simp
  from view_sort_stable [OF this run]
  have "filter (\<lambda>row. compare_rows ascii_toLowerCase name_asc row (sample_row ''Bob'' ''Kurti'') = 0)
        ([[sample_row ''Alice'' ''Saree'', sample_row ''bob'' ''Shirt'', sample_row ''BOB'' ''Jeans'']] ! 0)
     = filter (\<lambda>row. compare_rows ascii_toLowerCase name_asc row (sample_row ''Bob'' ''Kurti'') = 0)
        (filtered_rows ascii_toLowerCase \<lparr>f_search = '''', f_itemType = ''''\<rparr> ([sample_rows] ! 0))"
    by blast
  then have "filter (\<lambda>row. compare_rows ascii_toLowerCase name_asc row (sample_row ''Bob'' ''Kurti'') = 0)
        [sample_row ''Alice'' ''Saree'', sample_row ''bob'' ''Shirt'', sample_row ''BOB'' ''Jeans'']
     = filter (\<lambda>row. compare_rows ascii_toLowerCase name_asc row (sample_row ''Bob'' ''Kurti'') = 0) sample_rows"
    unfolding input by simp
  with run show ?thesis by (rule conjI)
qed

section \<open>Aliasing of the sorted array\<close>

text \<open>
  C10. When both the search text and the item filter are empty, the array that is sorted
  is the flattened array itself: the result is the same address, and the store holds the
  sorted rows there. When either filter is not empty, the result is a different, new
  array that holds the filtered rows in sorted order, and the flattened array is left as
  it was. This holds whatever the built-in \<open>toLowerCase\<close> does to a string.
\<close>

theorem view_sort_in_place:
  assumes "flat < length h"
    and "filteredAndSortedOrders toLowerCase h flat filters sortConfig = (r, h')"
  shows "(f_search filters = [] \<and> f_itemType filters = [] \<longrightarrow>
           r = flat \<and> h' ! flat = sorted_rows toLowerCase sortConfig (h ! flat))
    \<and> (f_search filters \<noteq> [] \<or> f_itemType filters \<noteq> [] \<longrightarrow>
           r \<noteq> flat \<and> h' ! flat = h ! flat
           \<and> h' ! r = sorted_rows toLowerCase sortConfig (filtered_rows toLowerCase filters (h ! flat)))"
  using assms
  by (auto simp: filteredAndSortedOrders_def alloc_def filtered_rows_def sorted_rows_def Let_def
      nth_append split: if_splits)

theorem view_sort_in_place_witness:
  "filteredAndSortedOrders ascii_toLowerCase [sample_rows] 0 \<lparr>f_search = '''', f_itemType = ''''\<rparr> name_asc
     = (0, [[sample_row ''Alice'' ''Saree'', sample_row ''bob'' ''Shirt'', sample_row ''BOB'' ''Jeans'']])
   \<and> [[sample_row ''Alice'' ''Saree'', sample_row ''bob'' ''Shirt'', sample_row ''BOB'' ''Jeans'']] ! 0
       = sorted_rows ascii_toLowerCase name_asc sample_rows
   \<and> filteredAndSortedOrders ascii_toLowerCase [sample_rows] 0 \<lparr>f_search = ''bo'', f_itemType = ''''\<rparr> name_asc
     = (1, [sample_rows, [sample_row ''bob'' ''Shirt'', sample_row ''BOB'' ''Jeans'']])
   \<and> [sample_rows, [sample_row ''bob'' ''Shirt'', sample_row ''BOB'' ''Jeans'']] ! 0 = [sample_rows] ! 0"
proof -
  have run1: "filteredAndSortedOrders ascii_toLowerCase [sample_rows] 0 \<lparr>f_search = '''', f_itemType = ''''\<rparr> name_asc
     = (0, [[sample_row ''Alice'' ''Saree'', sample_row ''bob'' ''Shirt'', sample_row ''BOB'' ''Jeans'']])"
    by (simp add: view_eval)
  have run2: "filteredAndSortedOrders ascii_toLowerCase [sample_rows] 0 \<lparr>f_search = ''bo'', f_itemType = ''''\<rparr> name_asc
     = (1, [sample_rows, [sample_row ''bob'' ''Shirt'', sample_row ''BOB'' ''Jeans'']])"
    by (simp add: view_eval)
  have valid: "0 < length [sample_rows]" by simp
  have "[[sample_row ''Alice'' ''Saree'', sample_row ''bob'' ''Shirt'', sample_row ''BOB'' ''Jeans'']] ! 0
       = sorted_rows ascii_toLowerCase name_asc ([sample_rows] ! 0)"
    using view_sort_in_place [OF valid run1] by simp
  moreover have "[sample_rows, [sample_row ''bob'' ''Shirt'', sample_row ''BOB'' ''Jeans'']] ! 0
      = [sample_rows] ! 0"
    using view_sort_in_place [OF valid run2] by simp
  ultimately show ?thesis
    using run1 run2 by simp
qed

end
